theory Spec2Isabelle
  imports Main "HOL-Library.Word" "HOL-Library.Sublist"
begin

section \<open>Strings of the source language\<close>

text \<open>
  A JavaScript string is a sequence of UTF-16 code units. Class names, resource
  identifiers and style sheet texts are all such strings. \<open>js\<close> embeds an
  ASCII literal of the source.
\<close>

type_synonym jschar = "16 word"
type_synonym jsstring = "jschar list"

definition js :: "string \<Rightarrow> jsstring" where
  "js s = map of_char s"

text \<open>
  The code units matched by \<^verbatim>\<open>\s\<close> in a regular expression and removed by
  \<^verbatim>\<open>String.prototype.trim\<close>: ECMAScript's WhiteSpace and LineTerminator
  productions (TAB, LF, VT, FF, CR, SP, NBSP, U+1680, U+2000 to U+200A, LS, PS,
  U+202F, U+205F, U+3000, U+FEFF).
\<close>

definition is_space :: "jschar \<Rightarrow> bool" where
  "is_space c =
     (c = 0x09 \<or> c = 0x0A \<or> c = 0x0B \<or> c = 0x0C \<or> c = 0x0D \<or> c = 0x20 \<or> c = 0xA0
      \<or> c = 0x1680 \<or> (0x2000 \<le> c \<and> c \<le> 0x200A) \<or> c = 0x2028 \<or> c = 0x2029
      \<or> c = 0x202F \<or> c = 0x205F \<or> c = 0x3000 \<or> c = 0xFEFF)"

text \<open>\<^verbatim>\<open>input.trim()\<close>: white space is removed from both ends.\<close>

definition trim :: "jsstring \<Rightarrow> jsstring" where
  "trim s = rev (dropWhile is_space (rev (dropWhile is_space s)))"

text \<open>
  \<^verbatim>\<open>s.split(/\s+/)\<close>: the pieces between the maximal runs of white space. A run
  at the start or at the end of the string leaves an empty piece there, and the empty
  string has the one piece \<^verbatim>\<open>""\<close>. \<open>cur\<close> is the piece being read.
\<close>

function split_ws :: "jsstring \<Rightarrow> jsstring \<Rightarrow> jsstring list" where
  "split_ws cur [] = [cur]"
| "split_ws cur (c # cs) =
     (if is_space c then cur # split_ws [] (dropWhile is_space cs)
      else split_ws (cur @ [c]) cs)"
  by pat_completeness auto
termination
  by (relation "measure (\<lambda>(cur, s). length s)")
     (auto intro: le_imp_less_Suc length_dropWhile_le)

text \<open>
  \<^verbatim>\<open>input.trim().split(/\s+/).filter(Boolean)\<close>: the empty string is the only falsy
  string, so the filter keeps the non-empty pieces.
\<close>

definition parseClassString :: "jsstring \<Rightarrow> jsstring list" where
  "parseClassString input = filter (\<lambda>piece. piece \<noteq> []) (split_ws [] (trim input))"

text \<open>\<^verbatim>\<open>xs.join(' ')\<close>.\<close>

fun join_space :: "jsstring list \<Rightarrow> jsstring" where
  "join_space [] = []"
| "join_space [x] = x"
| "join_space (x # y # ys) = x @ [0x20] @ join_space (y # ys)"

section \<open>The entry point's inputs\<close>

text \<open>
  One argument of \<^verbatim>\<open>tw\<close>, of type
  \<^verbatim>\<open>string | boolean | null | undefined | { [key: string]: boolean }\<close>. An object is
  given by its entries in the order \<^verbatim>\<open>Object.entries\<close> enumerates them.
\<close>

datatype input =
    Str jsstring
  | Bool bool
  | Null
  | Undefined
  | Obj "(jsstring \<times> bool) list"

text \<open>\<^verbatim>\<open>!input\<close>: the falsy values of the input type.\<close>

fun falsy :: "input \<Rightarrow> bool" where
  "falsy (Str s) = (s = [])"
| "falsy (Bool b) = (\<not> b)"
| "falsy Null = True"
| "falsy Undefined = True"
| "falsy (Obj entries) = False"

text \<open>
  The two arrays \<^verbatim>\<open>tw\<close> fills, \<^verbatim>\<open>resultClasses\<close> and
  \<^verbatim>\<open>allClassesToProcess\<close>, are threaded through its loops as a pair.
\<close>

type_synonym tw_acc = "jsstring list \<times> jsstring list"

text \<open>The inner loop over \<^verbatim>\<open>Object.entries(input)\<close>.\<close>

fun tw_entries :: "(jsstring \<times> bool) list \<Rightarrow> tw_acc \<Rightarrow> tw_acc" where
  "tw_entries [] acc = acc"
| "tw_entries ((className, condition) # rest) (resultClasses, allClassesToProcess) =
     (let parsedClasses = parseClassString className;
          allClassesToProcess' = allClassesToProcess @ parsedClasses;
          resultClasses' = (if condition then resultClasses @ parsedClasses else resultClasses)
      in tw_entries rest (resultClasses', allClassesToProcess'))"

text \<open>The outer loop over \<^verbatim>\<open>inputs\<close>. A \<^verbatim>\<open>true\<close> is neither falsy, a string nor an
  object, and falls through both branches.\<close>

fun tw_inputs :: "input list \<Rightarrow> tw_acc \<Rightarrow> tw_acc" where
  "tw_inputs [] acc = acc"
| "tw_inputs (inp # rest) (resultClasses, allClassesToProcess) =
     (if falsy inp then tw_inputs rest (resultClasses, allClassesToProcess)
      else case inp of
          Str s \<Rightarrow>
            (let parsedClasses = parseClassString s
             in tw_inputs rest (resultClasses @ parsedClasses, allClassesToProcess @ parsedClasses))
        | Obj entries \<Rightarrow>
            tw_inputs rest (tw_entries entries (resultClasses, allClassesToProcess))
        | _ \<Rightarrow> tw_inputs rest (resultClasses, allClassesToProcess))"

section \<open>Errors and instrumentation\<close>

text \<open>
  A thrown value. \<open>Error\<close> is \<^verbatim>\<open>new Error(message)\<close>; \<open>TypeError_undefined\<close> is
  the error the language raises when the named property is read or written on
  \<^verbatim>\<open>undefined\<close>.
\<close>

datatype error = Error jsstring | TypeError_undefined jsstring

fun message :: "error \<Rightarrow> jsstring" where
  "message (Error m) = m"
| "message (TypeError_undefined p) = p"

text \<open>
  Modelled from the spec: the class \<^verbatim>\<open>Instrumentation\<close> (imported from
  \<^verbatim>\<open>./instrumentation\<close>) is the observability channel. Each of its methods
  \<^verbatim>\<open>start\<close>, \<^verbatim>\<open>end\<close>, \<^verbatim>\<open>hit\<close> and \<^verbatim>\<open>error\<close> records one entry and
  returns; none of them throws.
\<close>

datatype ievent =
    I_start jsstring
  | I_end jsstring
  | I_end_counts jsstring nat nat
  | I_hit_loaded jsstring jsstring nat
  | I_hit_failed jsstring jsstring jsstring
  | I_error error

section \<open>The stylesheet resolver\<close>

text \<open>The texts \<^verbatim>\<open>assets.css.index\<close>, \<^verbatim>\<open>.preflight\<close>, \<^verbatim>\<open>.theme\<close> and
  \<^verbatim>\<open>.utilities\<close> of the module \<^verbatim>\<open>./assets\<close>, taken as a parameter.\<close>

record assets =
  css_index :: jsstring
  css_preflight :: jsstring
  css_theme :: jsstring
  css_utilities :: jsstring

record stylesheet =
  path :: jsstring
  base :: jsstring
  content :: jsstring

text \<open>The inner function \<^verbatim>\<open>load\<close> of \<^verbatim>\<open>loadStylesheet\<close>.\<close>

definition load :: "assets \<Rightarrow> jsstring \<Rightarrow> jsstring \<Rightarrow> error + stylesheet" where
  \<open>load A ident b =
     (if ident = js ''tailwindcss'' then
        Inr \<lparr>path = js ''virtual:tailwindcss/index.css'', base = b, content = css_index A\<rparr>
      else if ident = js ''tailwindcss/preflight'' \<or> ident = js ''tailwindcss/preflight.css''
              \<or> ident = js ''./preflight.css'' then
        Inr \<lparr>path = js ''virtual:tailwindcss/preflight.css'', base = b, content = css_preflight A\<rparr>
      else if ident = js ''tailwindcss/theme'' \<or> ident = js ''tailwindcss/theme.css''
              \<or> ident = js ''./theme.css'' then
        Inr \<lparr>path = js ''virtual:tailwindcss/theme.css'', base = b, content = css_theme A\<rparr>
      else if ident = js ''tailwindcss/utilities'' \<or> ident = js ''tailwindcss/utilities.css''
              \<or> ident = js ''./utilities.css'' then
        Inr \<lparr>path = js ''virtual:tailwindcss/utilities.css'', base = b, content = css_utilities A\<rparr>
      else
        Inl (Error (js ''The browser build does not support @import for "'' @ ident @ js ''"'')))\<close>

text \<open>
  \<^verbatim>\<open>loadStylesheet\<close> returns what \<open>load\<close> returns, or rethrows what it throws, and
  reports one \<^verbatim>\<open>I.hit\<close> either way; the entry is returned next to the result.
\<close>

definition loadStylesheet :: "assets \<Rightarrow> jsstring \<Rightarrow> jsstring \<Rightarrow> ievent \<times> (error + stylesheet)" where
  "loadStylesheet A ident b =
     (case load A ident b of
        Inr stylesheet \<Rightarrow> (I_hit_loaded ident b (length (content stylesheet)), Inr stylesheet)
      | Inl err \<Rightarrow> (I_hit_failed ident b (message err), Inl err))"

text \<open>\<^verbatim>\<open>loadModule\<close> has no parameters of its own: whatever arguments the compiler
  passes are ignored.\<close>

definition loadModule :: "jsstring list \<Rightarrow> error + unit" where
  "loadModule args = Inl (Error (js ''The browser build does not support plugins or config files.''))"

section \<open>The compiler and the module state\<close>

text \<open>
  The package \<^verbatim>\<open>tailwindcss\<close> is an external collaborator, taken as a parameter:
  \<open>compile css base loadStylesheet loadModule\<close> yields the calls of \<^verbatim>\<open>loadStylesheet\<close>
  it made, as identifier and base in the order made, and an engine or what it throws;
  \<open>build engine classNames\<close> yields the style sheet text or throws.
\<close>

record 'c env =
  compile :: "jsstring \<Rightarrow> jsstring \<Rightarrow> (jsstring \<Rightarrow> jsstring \<Rightarrow> error + stylesheet)
                \<Rightarrow> (jsstring list \<Rightarrow> error + unit) \<Rightarrow> (jsstring \<times> jsstring) list \<times> (error + 'c)"
  build :: "'c \<Rightarrow> jsstring list \<Rightarrow> error + jsstring"
  assets :: assets

text \<open>
  History entries, not present in the source: the calls made to the external compiler
  (\<open>Compile\<close>, \<open>Build\<close>), and the moments a queued callback enters
  \<^verbatim>\<open>processClasses\<close> and the promise it returned settles (\<open>Enter\<close>, \<open>Leave\<close>),
  each with the task's class names and the content of \<^verbatim>\<open>processedClasses\<close> at that
  moment, and \<open>Leave\<close> with the error when the promise is rejected.
\<close>

datatype 'c hist =
    Compile jsstring
  | Build 'c "jsstring list"
  | Enter "jsstring list" "jsstring list"
  | Leave "jsstring list" "jsstring list" "error option"

text \<open>A promise of the runtime, and a callback registered on one: \<open>OnThen src cs dst\<close>
  is \<^verbatim>\<open>dst = src.then(() => processClasses(cs))\<close> and \<open>OnCatch src dst\<close> is
  \<^verbatim>\<open>dst = src.catch((err) => I.error(err))\<close>.\<close>

datatype pstate = Pending | Fulfilled | Rejected error

text \<open>
  Where a call of \<^verbatim>\<open>processClasses\<close> suspended at \<^verbatim>\<open>await initializeCompiler()\<close> is: its
  \<^verbatim>\<open>initializeCompiler()\<close> is itself waiting for the compile, or it has returned or
  thrown and the call waits to go on, which it does in a later job of the runtime.
\<close>

datatype stage = Awaiting_init | Init_settled "error option"

datatype reaction =
    OnThen nat "jsstring list" nat
  | OnCatch nat nat

text \<open>
  The module's variables \<^verbatim>\<open>compiler\<close>, \<^verbatim>\<open>processedClasses\<close>, \<^verbatim>\<open>sheet\<close>,
  \<^verbatim>\<open>buildQueue\<close> and \<^verbatim>\<open>I\<close>, and the part of the runtime they live in.
  \<^item> \<open>processedClasses\<close> is a \<^verbatim>\<open>Set\<close>: its elements in insertion order.
  \<^item> \<open>sheet\<close> is \<open>None\<close> until the style element is created, then its \<^verbatim>\<open>textContent\<close>.
  \<^item> \<open>buildQueue\<close> is the index of a promise in \<open>promises\<close>.
  \<^item> \<open>reactions\<close> are the callbacks registered and not yet run.
  \<^item> \<open>running\<close> are the calls of \<^verbatim>\<open>processClasses\<close> suspended at
    \<^verbatim>\<open>await initializeCompiler()\<close>, each with the promise it will settle, its class
    names and where it is.
  \<^item> \<open>inits\<close> are the calls of \<^verbatim>\<open>initializeCompiler\<close> made from outside the module
    and suspended at \<^verbatim>\<open>await tailwindcss.compile(...)\<close>, each with its CSS source.
\<close>

record 'c world =
  compiler :: "'c option"
  processedClasses :: "jsstring list"
  sheet :: "jsstring option"
  buildQueue :: nat
  instr :: "ievent list"
  promises :: "pstate list"
  reactions :: "reaction list"
  running :: "(nat \<times> jsstring list \<times> stage) list"
  inits :: "jsstring list"
  history :: "'c hist list"

text \<open>The state when the module has been loaded: \<^verbatim>\<open>buildQueue = Promise.resolve()\<close>.\<close>

definition initial :: "'c world" where
  "initial = \<lparr>compiler = None, processedClasses = [], sheet = None, buildQueue = 0,
              instr = [], promises = [Fulfilled], reactions = [], running = [], inits = [],
              history = []\<rparr>"

section \<open>initializeCompiler\<close>

definition default_css :: jsstring where
  \<open>default_css = js ''@import "tailwindcss";''\<close>

text \<open>\<^verbatim>\<open>customCss ?? `@import "tailwindcss";`\<close>\<close>

definition css_source :: "jsstring option \<Rightarrow> jsstring" where
  "css_source customCss = (case customCss of None \<Rightarrow> default_css | Some css \<Rightarrow> css)"

text \<open>
  \<^verbatim>\<open>tailwindcss.compile(css, { base: '/', loadStylesheet, loadModule })\<close>: its outcome
  \<open>compile_css\<close>, and the \<^verbatim>\<open>I.hit\<close> entries \<open>compile_hits\<close> that \<^verbatim>\<open>loadStylesheet\<close>
  records in the calls the compiler makes of it.
\<close>

definition compile_run :: "'c env \<Rightarrow> jsstring \<Rightarrow> (jsstring \<times> jsstring) list \<times> (error + 'c)" where
  "compile_run E css =
     compile E css (js ''/'') (\<lambda>ident b. snd (loadStylesheet (assets E) ident b)) loadModule"

definition compile_css :: "'c env \<Rightarrow> jsstring \<Rightarrow> error + 'c" where
  "compile_css E css = snd (compile_run E css)"

definition compile_hits :: "'c env \<Rightarrow> jsstring \<Rightarrow> ievent list" where
  "compile_hits E css =
     map (\<lambda>(ident, b). fst (loadStylesheet (assets E) ident b)) (fst (compile_run E css))"

text \<open>\<^verbatim>\<open>initializeCompiler\<close> up to its \<^verbatim>\<open>await\<close>: the two \<^verbatim>\<open>I.start\<close> and the call of
  \<^verbatim>\<open>tailwindcss.compile\<close>, whose promise is then awaited.\<close>

definition init_begin :: "jsstring \<Rightarrow> 'c world \<Rightarrow> 'c world" where
  "init_begin css w =
     w\<lparr>instr := instr w @ [I_start (js ''Initialize compiler''), I_start (js ''Compile CSS'')],
       history := history w @ [Compile css]\<rparr>"

text \<open>The two \<^verbatim>\<open>I.end\<close> of the \<^verbatim>\<open>finally\<close> block.\<close>

definition init_finally :: "'c world \<Rightarrow> 'c world" where
  "init_finally w =
     w\<lparr>instr := instr w @ [I_end (js ''Compile CSS''), I_end (js ''Initialize compiler'')]\<rparr>"

text \<open>What \<^verbatim>\<open>loadStylesheet\<close> has recorded by the time the compile of \<open>css\<close> settles.\<close>

definition init_loaded :: "'c env \<Rightarrow> jsstring \<Rightarrow> 'c world \<Rightarrow> 'c world" where
  "init_loaded E css w = w\<lparr>instr := instr w @ compile_hits E css\<rparr>"

text \<open>
  \<^verbatim>\<open>initializeCompiler\<close> from the moment the awaited promise settles. When
  \<^verbatim>\<open>compile\<close> threw, the assignment to \<^verbatim>\<open>compiler\<close> is not reached; otherwise the
  engine is installed and the style element is created unless there is one.
\<close>

definition init_finish :: "'c env \<Rightarrow> jsstring \<Rightarrow> 'c world \<Rightarrow> (error + unit) \<times> 'c world" where
  "init_finish E css w =
     (case compile_css E css of
        Inl err \<Rightarrow> (Inl err, init_finally (init_loaded E css w))
      | Inr engine \<Rightarrow>
          (Inr (), init_finally
             ((init_loaded E css w)
                \<lparr>compiler := Some engine,
                  sheet := (case sheet w of None \<Rightarrow> Some [] | Some text \<Rightarrow> Some text)\<rparr>)))"

definition initializeCompiler :: "'c env \<Rightarrow> jsstring option \<Rightarrow> 'c world \<Rightarrow> (error + unit) \<times> 'c world" where
  "initializeCompiler E customCss w =
     (let css = css_source customCss in init_finish E css (init_begin css w))"

section \<open>processClasses\<close>

text \<open>\<^verbatim>\<open>processedClasses.add(cls)\<close> on the insertion-ordered set.\<close>

definition set_add :: "jsstring \<Rightarrow> jsstring list \<Rightarrow> jsstring list" where
  "set_add cls registry = (if cls \<in> set registry then registry else registry @ [cls])"

text \<open>\<^verbatim>\<open>for (const cls of newClasses) processedClasses.add(cls)\<close>\<close>

fun add_all :: "jsstring list \<Rightarrow> jsstring list \<Rightarrow> jsstring list" where
  "add_all [] registry = registry"
| "add_all (cls # rest) registry = add_all rest (set_add cls registry)"

text \<open>
  \<^verbatim>\<open>processClasses\<close> after its first statement, which is the only place it can be
  suspended. Reading \<^verbatim>\<open>compiler.build\<close> or writing \<^verbatim>\<open>sheet.textContent\<close> while the
  variable is still \<^verbatim>\<open>undefined\<close> throws.
\<close>

definition process_new :: "'c env \<Rightarrow> jsstring list \<Rightarrow> 'c world \<Rightarrow> (error + unit) \<times> 'c world" where
  "process_new E classNames w =
     (let newClasses = filter (\<lambda>cls. cls \<notin> set (processedClasses w)) classNames in
      if length newClasses = 0 then (Inr (), w)
      else
        let w1 = w\<lparr>instr := instr w @ [I_start (js ''Process new classes'')],
                   processedClasses := add_all newClasses (processedClasses w)\<rparr>;
            allProcessedClasses = processedClasses w1
        in case compiler w1 of
             None \<Rightarrow> (Inl (TypeError_undefined (js ''build'')), w1)
           | Some engine \<Rightarrow>
               (let w2 = w1\<lparr>history := history w1 @ [Build engine allProcessedClasses]\<rparr>
                in case build E engine allProcessedClasses of
                     Inl err \<Rightarrow> (Inl err, w2)
                   | Inr compiledCss \<Rightarrow>
                       (case sheet w2 of
                          None \<Rightarrow> (Inl (TypeError_undefined (js ''textContent'')), w2)
                        | Some old \<Rightarrow>
                            (Inr (), w2\<lparr>sheet := Some compiledCss,
                                        instr := instr w2 @
                                          [I_end_counts (js ''Process new classes'')
                                             (length newClasses) (length allProcessedClasses)]\<rparr>))))"

text \<open>The whole of \<^verbatim>\<open>processClasses\<close>, when nothing else runs while it is suspended.\<close>

definition processClasses :: "'c env \<Rightarrow> jsstring list \<Rightarrow> 'c world \<Rightarrow> (error + unit) \<times> 'c world" where
  "processClasses E classNames w =
     (if compiler w = None then
        (case initializeCompiler E None w of
           (Inl err, w') \<Rightarrow> (Inl err, w')
         | (Inr u, w') \<Rightarrow> process_new E classNames w')
      else process_new E classNames w)"

text \<open>The state of a promise settled with an outcome, and the state right after an
  automatic initialisation that succeeded with \<open>engine\<close>.\<close>

definition pstate_of :: "error option \<Rightarrow> pstate" where
  "pstate_of r = (case r of None \<Rightarrow> Fulfilled | Some err \<Rightarrow> Rejected err)"

definition installed :: "'c env \<Rightarrow> 'c \<Rightarrow> 'c world \<Rightarrow> 'c world" where
  "installed E engine w =
     init_finally ((init_loaded E default_css (init_begin default_css w))
       \<lparr>compiler := Some engine,
         sheet := (case sheet w of None \<Rightarrow> Some [] | Some text \<Rightarrow> Some text)\<rparr>)"

section \<open>The queue and the entry point\<close>

text \<open>
  \<^verbatim>\<open>buildQueue = buildQueue.then(() => processClasses(classNames)).catch((err) => I.error(err))\<close>:
  two new promises, a callback on the old \<^verbatim>\<open>buildQueue\<close> and one on the first new
  promise; the second new promise is the new \<^verbatim>\<open>buildQueue\<close>.
\<close>

definition queueClassProcessing :: "jsstring list \<Rightarrow> 'c world \<Rightarrow> 'c world" where
  "queueClassProcessing classNames w =
     (let p = length (promises w); q = p + 1 in
      w\<lparr>promises := promises w @ [Pending, Pending],
        reactions := reactions w @ [OnThen (buildQueue w) classNames p, OnCatch p q],
        buildQueue := q\<rparr>)"

definition tw :: "input list \<Rightarrow> 'c world \<Rightarrow> jsstring \<times> 'c world" where
  "tw inputs w =
     (let (resultClasses, allClassesToProcess) = tw_inputs inputs ([], [])
      in (join_space resultClasses, queueClassProcessing allClassesToProcess w))"

section \<open>The event loop\<close>

text \<open>
  What can happen next: a call of \<^verbatim>\<open>tw\<close> or of \<^verbatim>\<open>initializeCompiler\<close> from outside
  the module, the run of a registered callback whose promise has settled, or the
  resumption of a suspended call. The runtime may take these in any order that
  respects settlement; an event that is not enabled does not happen. The outcome of an
  outside call of \<^verbatim>\<open>initializeCompiler\<close> goes to its caller and is not kept.
\<close>

datatype event =
    Call_tw "input list"
  | Call_initializeCompiler "jsstring option"
  | Fire nat
  | Resume nat
  | Resume_init nat

definition remove_nth :: "nat \<Rightarrow> 'a list \<Rightarrow> 'a list" where
  "remove_nth i xs = take i xs @ drop (Suc i) xs"

text \<open>The promise a call of \<^verbatim>\<open>processClasses\<close> returned settles with its outcome.\<close>

definition finish_task :: "nat \<Rightarrow> jsstring list \<Rightarrow> (error + unit) \<times> 'c world \<Rightarrow> 'c world" where
  "finish_task dst classNames rw =
     (case rw of (r, w) \<Rightarrow>
        w\<lparr>history := history w @
            [Leave classNames (processedClasses w) (case r of Inl err \<Rightarrow> Some err | Inr u \<Rightarrow> None)],
          promises := (promises w)[dst := (case r of Inl err \<Rightarrow> Rejected err | Inr u \<Rightarrow> Fulfilled)]\<rparr>)"

text \<open>
  A callback runs once the promise it is registered on has settled. \<^verbatim>\<open>then\<close> with one
  argument calls it on fulfilment and passes a rejection on; \<^verbatim>\<open>catch\<close> calls
  \<^verbatim>\<open>I.error\<close> on rejection and passes a fulfilment on. \<^verbatim>\<open>processClasses\<close> runs up to
  its \<^verbatim>\<open>await\<close>, or to its end when the compiler is there; then the promise it returns
  settles in the same step.
\<close>

definition fire :: "'c env \<Rightarrow> reaction \<Rightarrow> 'c world \<Rightarrow> 'c world option" where
  "fire E r w =
     (case r of
        OnThen src classNames dst \<Rightarrow>
          (if src < length (promises w) then
             (case promises w ! src of
                Pending \<Rightarrow> None
              | Rejected err \<Rightarrow> Some (w\<lparr>promises := (promises w)[dst := Rejected err]\<rparr>)
              | Fulfilled \<Rightarrow>
                  (let w1 = w\<lparr>history := history w @ [Enter classNames (processedClasses w)]\<rparr> in
                   if compiler w1 = None then
                     Some ((init_begin default_css w1)
                             \<lparr>running := running w1 @ [(dst, classNames, Awaiting_init)]\<rparr>)
                   else Some (finish_task dst classNames (process_new E classNames w1))))
           else None)
      | OnCatch src dst \<Rightarrow>
          (if src < length (promises w) then
             (case promises w ! src of
                Pending \<Rightarrow> None
              | Fulfilled \<Rightarrow> Some (w\<lparr>promises := (promises w)[dst := Fulfilled]\<rparr>)
              | Rejected err \<Rightarrow>
                  Some (w\<lparr>instr := instr w @ [I_error err],
                          promises := (promises w)[dst := Fulfilled]\<rparr>))
           else None))"

text \<open>
  The \<open>j\<close>-th suspended call of \<^verbatim>\<open>processClasses\<close> takes its next step. When the compile
  it waits for settles, its \<^verbatim>\<open>initializeCompiler()\<close> runs to its end and returns or
  throws; the call itself goes on only in a later step, so that other jobs can run in
  between. When it goes on, it throws what \<^verbatim>\<open>initializeCompiler()\<close> threw, or runs to
  its end with the compiler that is installed by then, and its promise settles.
\<close>

definition resume :: "'c env \<Rightarrow> nat \<Rightarrow> 'c world \<Rightarrow> 'c world" where
  "resume E j w =
     (case running w ! j of
        (dst, classNames, Awaiting_init) \<Rightarrow>
          (case init_finish E default_css w of
             (r, w') \<Rightarrow>
               w'\<lparr>running := (running w')
                    [j := (dst, classNames,
                           Init_settled (case r of Inl err \<Rightarrow> Some err | Inr u \<Rightarrow> None))]\<rparr>)
      | (dst, classNames, Init_settled (Some err)) \<Rightarrow>
          finish_task dst classNames (Inl err, w\<lparr>running := remove_nth j (running w)\<rparr>)
      | (dst, classNames, Init_settled None) \<Rightarrow>
          finish_task dst classNames
            (process_new E classNames (w\<lparr>running := remove_nth j (running w)\<rparr>)))"

definition step :: "'c env \<Rightarrow> event \<Rightarrow> 'c world \<Rightarrow> 'c world option" where
  "step E ev w =
     (case ev of
        Call_tw inputs \<Rightarrow> Some (snd (tw inputs w))
      | Call_initializeCompiler customCss \<Rightarrow>
          (let css = css_source customCss
           in Some ((init_begin css w)\<lparr>inits := inits w @ [css]\<rparr>))
      | Fire i \<Rightarrow>
          (if i < length (reactions w)
           then fire E (reactions w ! i) (w\<lparr>reactions := remove_nth i (reactions w)\<rparr>)
           else None)
      | Resume j \<Rightarrow>
          (if j < length (running w)
           then Some (resume E j w)
           else None)
      | Resume_init j \<Rightarrow>
          (if j < length (inits w)
           then Some (snd (init_finish E (inits w ! j) (w\<lparr>inits := remove_nth j (inits w)\<rparr>)))
           else None))"

text \<open>A run of the program: the events in order, those not enabled left out.\<close>

definition step_or_skip :: "'c env \<Rightarrow> 'c world \<Rightarrow> event \<Rightarrow> 'c world" where
  "step_or_skip E w ev = (case step E ev w of None \<Rightarrow> w | Some w' \<Rightarrow> w')"

definition exec :: "'c env \<Rightarrow> event list \<Rightarrow> 'c world \<Rightarrow> 'c world" where
  "exec E evs w = foldl (step_or_skip E) w evs"

text \<open>
  The runtime left to itself: as long as something is waiting, the suspended task goes
  on first, then a suspended outside call of \<^verbatim>\<open>initializeCompiler\<close>, then the oldest
  registered callback. \<open>run_jobs k\<close> takes at most \<open>k\<close> such steps.
\<close>

definition next_event :: "'c world \<Rightarrow> event option" where
  "next_event w =
     (if running w \<noteq> [] then Some (Resume 0)
      else if inits w \<noteq> [] then Some (Resume_init 0)
      else if reactions w \<noteq> [] then Some (Fire 0)
      else None)"

primrec run_jobs :: "nat \<Rightarrow> 'c env \<Rightarrow> 'c world \<Rightarrow> 'c world" where
  "run_jobs 0 E w = w"
| "run_jobs (Suc k) E w =
     (case next_event w of
        None \<Rightarrow> w
      | Some ev \<Rightarrow> run_jobs k E (step_or_skip E w ev))"

text \<open>The number of steps that is enough: a callback takes one and may leave a
  suspended task, which takes two more.\<close>

fun stage_steps :: "stage \<Rightarrow> nat" where
  "stage_steps Awaiting_init = 2"
| "stage_steps (Init_settled r) = 1"

definition jobs_bound :: "'c world \<Rightarrow> nat" where
  "jobs_bound w =
     3 * length (reactions w)
     + sum_list (map (\<lambda>(dst, classNames, st). stage_steps st) (running w))
     + length (inits w)"

section \<open>Reading a run\<close>

text \<open>The tasks queued by a list of events, in order: the candidates of each call of
  \<^verbatim>\<open>tw\<close>.\<close>

definition enqueued :: "event list \<Rightarrow> jsstring list list" where
  "enqueued evs =
     concat (map (\<lambda>ev. case ev of Call_tw inputs \<Rightarrow> [snd (tw_inputs inputs ([], []))] | _ \<Rightarrow> []) evs)"

text \<open>The tasks still waiting in the registered callbacks, in order.\<close>

definition pending :: "reaction list \<Rightarrow> jsstring list list" where
  "pending rs = concat (map (\<lambda>r. case r of OnThen src classNames dst \<Rightarrow> [classNames] | _ \<Rightarrow> []) rs)"

text \<open>The tasks a history saw enter and leave, the errors its tasks threw, and the
  registry contents it recorded, each in order.\<close>

definition entered :: "'c hist list \<Rightarrow> jsstring list list" where
  "entered h = concat (map (\<lambda>e. case e of Enter classNames registry \<Rightarrow> [classNames] | _ \<Rightarrow> []) h)"

definition left :: "'c hist list \<Rightarrow> jsstring list list" where
  "left h = concat (map (\<lambda>e. case e of Leave classNames registry r \<Rightarrow> [classNames] | _ \<Rightarrow> []) h)"

definition raised :: "'c hist list \<Rightarrow> error list" where
  "raised h = concat (map (\<lambda>e. case e of Leave classNames registry (Some err) \<Rightarrow> [err] | _ \<Rightarrow> []) h)"

definition snaps :: "'c hist list \<Rightarrow> jsstring list list" where
  "snaps h =
     concat (map (\<lambda>e. case e of
                         Enter classNames registry \<Rightarrow> [registry]
                       | Build engine names \<Rightarrow> [names]
                       | Leave classNames registry r \<Rightarrow> [registry]
                       | Compile css \<Rightarrow> []) h)"

text \<open>The errors reported through \<^verbatim>\<open>I.error\<close>, in order.\<close>

definition reported :: "ievent list \<Rightarrow> error list" where
  "reported evs = concat (map (\<lambda>e. case e of I_error err \<Rightarrow> [err] | _ \<Rightarrow> []) evs)"

text \<open>
  Reading a history from the left with the task that is open, if any: a task enters
  only when none is open, the task that leaves is the open one, and a build happens
  inside a task. \<open>None\<close> is a history that broke one of these.
\<close>

fun bracket :: "jsstring list option option \<Rightarrow> 'c hist \<Rightarrow> jsstring list option option" where
  "bracket None e = None"
| "bracket (Some cur) (Enter classNames registry) =
     (if cur = None then Some (Some classNames) else None)"
| "bracket (Some cur) (Leave classNames registry r) =
     (if cur = Some classNames then Some None else None)"
| "bracket (Some cur) (Build engine names) = (if cur = None then None else Some cur)"
| "bracket (Some cur) (Compile css) = Some cur"

definition serial :: "'c hist list \<Rightarrow> bool" where
  "serial h = (foldl bracket (Some None) h \<noteq> None)"

section \<open>The shape of the queue\<close>

text \<open>
  The promises of the queue form one chain. Promise 0 is \<^verbatim>\<open>Promise.resolve()\<close>; the
  k-th call of \<^verbatim>\<open>tw\<close> adds promise 2k-1 for its \<^verbatim>\<open>then\<close> and promise 2k for its
  \<^verbatim>\<open>catch\<close>. \<open>shape d r\<close>: the callback \<open>r\<close> is the one that settles promise \<open>d\<close>.
\<close>

fun shape :: "nat \<Rightarrow> reaction \<Rightarrow> bool" where
  "shape d (OnThen src classNames dst) = (dst = d \<and> odd d \<and> Suc src = d)"
| "shape d (OnCatch src dst) = (dst = d \<and> even d \<and> Suc src = d)"

fun shapes :: "nat \<Rightarrow> reaction list \<Rightarrow> bool" where
  "shapes d [] = True"
| "shapes d (r # rs) = (shape d r \<and> shapes (Suc d) rs)"

text \<open>The promises below \<open>f\<close> have settled and the others have not; a settled promise
  of a \<^verbatim>\<open>catch\<close>, like promise 0, is fulfilled.\<close>

definition settled_below :: "nat \<Rightarrow> pstate list \<Rightarrow> bool" where
  "settled_below f ps =
     (0 < f \<and> f \<le> length ps
      \<and> (\<forall>i < length ps. (ps ! i = Pending) = (f \<le> i))
      \<and> (\<forall>i < f. even i \<longrightarrow> ps ! i = Fulfilled))"

text \<open>The callbacks registered are those of the promises not yet settled, in order,
  but for the callback of a suspended task, which has run.\<close>

definition queue_inv :: "nat \<Rightarrow> 'c world \<Rightarrow> bool" where
  "queue_inv f w =
     (odd (length (promises w)) \<and> Suc (buildQueue w) = length (promises w)
      \<and> settled_below f (promises w)
      \<and> (case running w of
            [] \<Rightarrow> f + length (reactions w) = length (promises w) \<and> shapes f (reactions w)
          | [(d, classNames, st)] \<Rightarrow>
              d = f \<and> odd f \<and> Suc f + length (reactions w) = length (promises w)
              \<and> shapes (Suc f) (reactions w)
          | _ \<Rightarrow> False))"

text \<open>The task that is open in a state: the suspended one.\<close>

definition open_task :: "'c world \<Rightarrow> jsstring list option" where
  "open_task w =
     (case running w of [] \<Rightarrow> None | (d, classNames, st) # rest \<Rightarrow> Some classNames)"

text \<open>The error thrown and not yet reported: that of the last settled promise.\<close>

definition outstanding :: "nat \<Rightarrow> pstate list \<Rightarrow> error list" where
  "outstanding f ps = (case ps ! (f - 1) of Rejected err \<Rightarrow> [err] | _ \<Rightarrow> [])"

definition history_inv :: "event list \<Rightarrow> nat \<Rightarrow> 'c world \<Rightarrow> bool" where
  "history_inv evs f w =
     (foldl bracket (Some None) (history w) = Some (open_task w)
      \<and> entered (history w) @ pending (reactions w) = enqueued evs
      \<and> left (history w) @ (case open_task w of None \<Rightarrow> [] | Some classNames \<Rightarrow> [classNames])
          = entered (history w)
      \<and> sorted_wrt prefix (snaps (history w) @ [processedClasses w])
      \<and> raised (history w) = reported (instr w) @ outstanding f (promises w))"

text \<open>
  What a task that was open in \<open>w\<close> with promise \<open>d\<close> leaves behind when it ends in
  \<open>w2\<close>: the promise settled, at most one build and then its leaving in the history, a
  registry that has at most grown, and nothing new reported.
\<close>

definition task_done :: "nat \<Rightarrow> jsstring list \<Rightarrow> 'c world \<Rightarrow> 'c world \<Rightarrow> bool" where
  "task_done d cs w w2 =
     (\<exists>r bs. promises w2 = (promises w)[d := pstate_of r]
        \<and> history w2 = history w @ bs @ [Leave cs (processedClasses w2) r]
        \<and> (bs = [] \<or> (\<exists>c. bs = [Build c (processedClasses w2)]))
        \<and> prefix (processedClasses w) (processedClasses w2)
        \<and> reported (instr w2) = reported (instr w)
        \<and> reactions w2 = reactions w \<and> running w2 = running w \<and> inits w2 = inits w
        \<and> buildQueue w2 = buildQueue w)"

text \<open>What holds of the state after the events \<open>evs\<close>, with \<open>f\<close> promises settled.\<close>

definition run_inv :: "event list \<Rightarrow> nat \<Rightarrow> 'c world \<Rightarrow> bool" where
  "run_inv evs f w = (queue_inv f w \<and> history_inv evs f w)"

text \<open>
  The errors the external compiler throws are its own: none of them is the error the
  language raises for a property of \<^verbatim>\<open>undefined\<close>.
\<close>

definition own_errors :: "'c env \<Rightarrow> bool" where
  "own_errors E =
     ((\<forall>css p. compile_css E css \<noteq> Inl (TypeError_undefined p))
      \<and> (\<forall>engine names p. build E engine names \<noteq> Inl (TypeError_undefined p)))"

text \<open>An engine that a compile recorded in the history returned.\<close>

definition recorded :: "'c env \<Rightarrow> 'c hist list \<Rightarrow> 'c \<Rightarrow> bool" where
  "recorded E h engine = (\<exists>css. Compile css \<in> set h \<and> compile_css E css = Inr engine)"

text \<open>
  Where there is an engine there is a style sheet; the engine installed and the engine
  of every build came from a compile in the history; every compile that is waited for
  is in the history; and a suspended task whose \<^verbatim>\<open>initializeCompiler()\<close> has returned
  finds an engine.
\<close>

definition engine_inv :: "'c env \<Rightarrow> 'c world \<Rightarrow> bool" where
  "engine_inv E w =
     ((compiler w \<noteq> None \<longrightarrow> sheet w \<noteq> None)
      \<and> (\<forall>engine. compiler w = Some engine \<longrightarrow> recorded E (history w) engine)
      \<and> (\<forall>engine names. Build engine names \<in> set (history w) \<longrightarrow> recorded E (history w) engine)
      \<and> (\<forall>css \<in> set (inits w). Compile css \<in> set (history w))
      \<and> (\<forall>d cs st. (d, cs, st) \<in> set (running w) \<longrightarrow>
            Compile default_css \<in> set (history w)
            \<and> (st = Init_settled None \<longrightarrow> compiler w \<noteq> None)))"

text \<open>No task has thrown, or is about to throw, the language's error for a property of
  \<^verbatim>\<open>undefined\<close>.\<close>

definition error_inv :: "'c world \<Rightarrow> bool" where
  "error_inv w =
     ((\<forall>p. TypeError_undefined p \<notin> set (raised (history w)))
      \<and> (\<forall>d cs p. (d, cs, Init_settled (Some (TypeError_undefined p))) \<notin> set (running w)))"

section \<open>The statements the properties are compared with\<close>

text \<open>
  The active tokens and the candidate tokens of one input, as the interface describes
  them: a string gives its tokens to both; an object gives every key's tokens to the
  candidates and those of the keys with a true value to the active ones; anything else
  gives nothing.
\<close>

fun spec_active :: "input \<Rightarrow> jsstring list" where
  "spec_active (Str s) = parseClassString s"
| "spec_active (Obj entries) =
     concat (map (\<lambda>(className, condition). if condition then parseClassString className else [])
       entries)"
| "spec_active other = []"

fun spec_candidates :: "input \<Rightarrow> jsstring list" where
  "spec_candidates (Str s) = parseClassString s"
| "spec_candidates (Obj entries) =
     concat (map (\<lambda>(className, condition). parseClassString className) entries)"
| "spec_candidates other = []"

text \<open>The identifiers the resolver knows: the default entry point, and the three
  sub-resources under their three names each.\<close>

definition supported_ids :: "jsstring list" where
  "supported_ids =
     [js ''tailwindcss'',
      js ''tailwindcss/preflight'', js ''tailwindcss/preflight.css'', js ''./preflight.css'',
      js ''tailwindcss/theme'', js ''tailwindcss/theme.css'', js ''./theme.css'',
      js ''tailwindcss/utilities'', js ''tailwindcss/utilities.css'', js ''./utilities.css'']"

text \<open>The \<open>Build\<close> entries of a history.\<close>

fun is_build :: "'c hist \<Rightarrow> bool" where
  "is_build (Build engine names) = True"
| "is_build other = False"

section \<open>A concrete environment\<close>

text \<open>
  An environment to run the definitions on: the engine is the CSS source it was
  compiled from, \<open>compile\<close> throws on the source \<^verbatim>\<open>broken\<close> and otherwise asks for
  \<^verbatim>\<open>tailwindcss\<close>, and \<open>build\<close> joins the class names and throws when \<^verbatim>\<open>boom\<close> is among
  them.
\<close>

definition demo_assets :: assets where
  "demo_assets = \<lparr>css_index = js ''index'', css_preflight = js ''preflight'',
                  css_theme = js ''theme'', css_utilities = js ''utilities''\<rparr>"

definition demo_env :: "jsstring env" where
  "demo_env =
     \<lparr>compile = (\<lambda>css b ls lm. if css = js ''broken''
                               then ([], Inl (Error (js ''cannot compile'')))
                               else ([(js ''tailwindcss'', b)], Inr css)),
      build = (\<lambda>engine names. if js ''boom'' \<in> set names then Inl (Error (js ''cannot build''))
                               else Inr (join_space names)),
      assets = demo_assets\<rparr>"

text \<open>The same environment with a compiler that always throws.\<close>

definition broken_env :: "jsstring env" where
  "broken_env = demo_env\<lparr>compile := (\<lambda>css b ls lm. ([], Inl (Error (js ''cannot compile''))))\<rparr>"

text \<open>A state with an engine installed and the classes a and b compiled.\<close>

definition demo_world :: "jsstring world" where
  "demo_world = initial\<lparr>compiler := Some (js ''engine''),
                         processedClasses := [js ''a'', js ''b''],
                         sheet := Some (js ''a b'')\<rparr>"

text \<open>Two calls of \<^verbatim>\<open>tw\<close> one after the other, before any task runs; and a run whose
  only task throws in \<^verbatim>\<open>build\<close>, up to the moment the task has thrown.\<close>

definition two_calls :: "event list" where
  "two_calls = [Call_tw [Str (js ''a b'')], Call_tw [Str (js ''b c'')],
                Fire 0, Resume 0, Resume 0, Fire 0, Fire 0, Fire 0]"

definition failing_run :: "event list" where
  "failing_run = [Call_tw [Str (js ''boom'')], Fire 0, Resume 0, Resume 0]"

text \<open>
  A run in which \<^verbatim>\<open>initializeCompiler\<close> is called from outside with a source of its
  own while the first task waits for its compile: the task's \<^verbatim>\<open>initializeCompiler()\<close>
  returns, then the outside call installs its engine, then the task goes on.
\<close>

definition overtaken_run :: "event list" where
  "overtaken_run = [Call_tw [Str (js ''a'')], Fire 0, Call_initializeCompiler (Some (js ''custom'')),
                    Resume 0, Resume_init 0, Resume 0]"

section \<open>Properties of the entry point\<close>

lemma filter_dropWhile_not: "filter (\<lambda>c. \<not> P c) (dropWhile P xs) = filter (\<lambda>c. \<not> P c) xs"
  by (induction xs) simp_all

lemma concat_split_ws: "concat (split_ws cur s) = cur @ filter (\<lambda>c. \<not> is_space c) s"
proof (induction cur s rule: split_ws.induct)
  case (1 cur)
  show ?case by simp
next
  case (2 cur c cs)
  show ?case
  proof (cases "is_space c")
    case True
    with 2 show ?thesis by (simp add: filter_dropWhile_not)
  next
    case False
    with 2 show ?thesis by simp
  qed
qed

lemma split_ws_no_space:
  "\<forall>c \<in> set cur. \<not> is_space c \<Longrightarrow> t \<in> set (split_ws cur s) \<Longrightarrow> c \<in> set t \<Longrightarrow> \<not> is_space c"
proof (induction cur s rule: split_ws.induct)
  case (1 cur)
  then show ?case by simp
next
  case (2 cur d ds)
  show ?case
  proof (cases "is_space d")
    case True
    with 2 show ?thesis by auto
  next
    case False
    with 2 show ?thesis by auto
  qed
qed


lemma filter_trim: "filter (\<lambda>c. \<not> is_space c) (trim s) = filter (\<lambda>c. \<not> is_space c) s"
proof -
  have "filter (\<lambda>c. \<not> is_space c) (trim s)
          = rev (filter (\<lambda>c. \<not> is_space c) (dropWhile is_space (rev (dropWhile is_space s))))"
    by (simp only: trim_def rev_filter)
  also have "\<dots> = rev (filter (\<lambda>c. \<not> is_space c) (rev (dropWhile is_space s)))"
    by (simp only: filter_dropWhile_not)
  also have "\<dots> = filter (\<lambda>c. \<not> is_space c) (dropWhile is_space s)"
    by (simp only: rev_filter rev_rev_ident)
  finally show ?thesis by (simp only: filter_dropWhile_not)
qed

lemma concat_nonempty: "concat (filter (\<lambda>piece. piece \<noteq> []) xs) = concat xs"
  by (induction xs) simp_all

lemma parseClassString_concat:
  "concat (parseClassString s) = filter (\<lambda>c. \<not> is_space c) s"
  by (simp add: parseClassString_def concat_nonempty concat_split_ws filter_trim)

lemma parseClassString_token:
  assumes "t \<in> set (parseClassString s)"
  shows "t \<noteq> []" and "c \<in> set t \<Longrightarrow> \<not> is_space c"
proof -
  from assms have t: "t \<in> set (split_ws [] (trim s))" and "t \<noteq> []"
    by (simp_all add: parseClassString_def)
  then show "t \<noteq> []" by simp
  show "\<not> is_space c" if "c \<in> set t"
    using split_ws_no_space [OF _ t that] by simp
qed

lemma parseClassString_empty: "parseClassString [] = []"
  by (simp add: parseClassString_def trim_def)

lemma tw_entries_eq:
  "tw_entries entries (res, al) =
     (res @ spec_active (Obj entries), al @ spec_candidates (Obj entries))"
  by (induction entries arbitrary: res al) (auto simp: Let_def)

lemma tw_inputs_eq:
  "tw_inputs inputs (res, al) =
     (res @ concat (map spec_active inputs), al @ concat (map spec_candidates inputs))"
proof (induction inputs arbitrary: res al)
  case Nil
  show ?case by simp
next
  case (Cons inp rest)
  show ?case
  proof (cases inp)
    case (Str s)
    then show ?thesis using Cons by (simp add: parseClassString_empty Let_def)
  next
    case (Obj entries)
    then show ?thesis
      using Cons by (simp add: tw_entries_eq del: spec_active.simps spec_candidates.simps)
  qed (use Cons in simp_all)
qed

lemma falsy_gives_nothing:
  "falsy inp \<Longrightarrow> spec_active inp = []" "falsy inp \<Longrightarrow> spec_candidates inp = []"
  by (cases inp; simp add: parseClassString_empty)+

lemma tw_example_mapping:
  "tw [Str (js ''a b''), Obj [(js ''c'', True), (js ''d'', False)]] w =
     (js ''a b c'', queueClassProcessing [js ''a'', js ''b'', js ''c'', js ''d''] w)"
  by (simp add: tw_def tw_inputs_eq parseClassString_def trim_def js_def is_space_def)

lemma tw_example_falsy:
  "tw [Null, Bool False, Undefined, Str (js ''x'')] w =
     (js ''x'', queueClassProcessing [js ''x''] w)"
  by (simp add: tw_def tw_inputs_eq parseClassString_def trim_def js_def is_space_def)

text \<open>
  C3. \<^verbatim>\<open>tw\<close> returns at once the active tokens of its inputs joined by single spaces in
  the order met (the tokens of each string, and of each object key whose value is true),
  and queues the candidate tokens of its inputs (the tokens of each string and of every
  object key, whatever its value); \<^verbatim>\<open>null\<close>, \<^verbatim>\<open>undefined\<close>, \<^verbatim>\<open>false\<close> and the empty
  string contribute nothing and raise nothing. So \<^verbatim>\<open>tw("a b", {c: true, d: false})\<close>
  returns \<^verbatim>\<open>"a b c"\<close> and queues a, b, c, d, and
  \<^verbatim>\<open>tw(null, false, undefined, "x")\<close> returns \<^verbatim>\<open>"x"\<close>. The tokens of a string
  are not empty, hold no white space, and together are the string without its white
  space.
\<close>

theorem tw_returns_active_and_queues_all:
  "fst (tw inputs w) = join_space (concat (map spec_active inputs))
   \<and> snd (tw inputs w) = queueClassProcessing (concat (map spec_candidates inputs)) w
   \<and> tw (filter (\<lambda>inp. \<not> falsy inp) inputs) w = tw inputs w
   \<and> tw [Str (js ''a b''), Obj [(js ''c'', True), (js ''d'', False)]] w =
       (js ''a b c'', queueClassProcessing [js ''a'', js ''b'', js ''c'', js ''d''] w)
   \<and> tw [Null, Bool False, Undefined, Str (js ''x'')] w =
       (js ''x'', queueClassProcessing [js ''x''] w)
   \<and> concat (parseClassString s) = filter (\<lambda>c. \<not> is_space c) s
   \<and> (\<forall>t \<in> set (parseClassString s). t \<noteq> [] \<and> (\<forall>c \<in> set t. \<not> is_space c))"
proof (intro conjI)
  show "concat (parseClassString s) = filter (\<lambda>c. \<not> is_space c) s"
    by (rule parseClassString_concat)
  show "\<forall>t \<in> set (parseClassString s). t \<noteq> [] \<and> (\<forall>c \<in> set t. \<not> is_space c)"
    using parseClassString_token by blast
  show "fst (tw inputs w) = join_space (concat (map spec_active inputs))"
    by (simp add: tw_def tw_inputs_eq)
  show "snd (tw inputs w) = queueClassProcessing (concat (map spec_candidates inputs)) w"
    by (simp add: tw_def tw_inputs_eq)
  have "concat (map spec_active (filter (\<lambda>inp. \<not> falsy inp) inputs))
          = concat (map spec_active inputs)"
    and "concat (map spec_candidates (filter (\<lambda>inp. \<not> falsy inp) inputs))
          = concat (map spec_candidates inputs)"
    by (induction inputs) (simp_all add: falsy_gives_nothing)
  then show "tw (filter (\<lambda>inp. \<not> falsy inp) inputs) w = tw inputs w"
    by (simp add: tw_def tw_inputs_eq)
qed (rule tw_example_mapping tw_example_falsy)+

theorem tw_returns_active_and_queues_all_witness:
  "fst (tw [Bool True, Str (js '' p-5  bg-black ''), Obj [(js ''font-bold italic'', False)],
            Null, Obj [(js ''underline'', True)]] (initial :: jsstring world))
     = js ''p-5 bg-black underline''
   \<and> reactions (snd (tw [Bool True, Str (js '' p-5  bg-black ''),
                         Obj [(js ''font-bold italic'', False)], Null,
                         Obj [(js ''underline'', True)]] (initial :: jsstring world)))
     = [OnThen 0 [js ''p-5'', js ''bg-black'', js ''font-bold'', js ''italic'', js ''underline''] 1,
        OnCatch 1 2]
   \<and> parseClassString (js '' p-5  bg-black '') = [js ''p-5'', js ''bg-black'']
   \<and> concat (parseClassString (js '' p-5  bg-black '')) = js ''p-5bg-black''"
  using tw_returns_active_and_queues_all
    [of "[Bool True, Str (js '' p-5  bg-black ''), Obj [(js ''font-bold italic'', False)],
          Null, Obj [(js ''underline'', True)]]" "initial :: jsstring world"
        "js '' p-5  bg-black ''"]
  by (simp add: parseClassString_def trim_def js_def is_space_def queueClassProcessing_def
      initial_def)

section \<open>Properties of the resolver\<close>

lemma load_supported: "isl (load A ident b) = (ident \<notin> set supported_ids)"
  unfolding load_def supported_ids_def by (simp del: js_def)

lemma load_unsupported:
  \<open>ident \<notin> set supported_ids \<Longrightarrow>
     load A ident b =
       Inl (Error (js ''The browser build does not support @import for "'' @ ident @ js ''"''))\<close>
  unfolding load_def supported_ids_def by simp

lemma loadStylesheet_result: "snd (loadStylesheet A ident b) = load A ident b"
  by (simp add: loadStylesheet_def split: sum.splits)

text \<open>
  C7. \<^verbatim>\<open>loadStylesheet\<close> succeeds exactly for the ten identifiers of the alias table
  (\<^verbatim>\<open>tailwindcss\<close>, and preflight, theme and utilities under their canonical and their
  path-shaped names); for every other identifier it throws an error whose message
  quotes that identifier, and reports the same message. \<^verbatim>\<open>loadModule\<close> throws whatever
  it is called with.
\<close>

theorem resolver_closed_table:
  \<open>isl (snd (loadStylesheet A ident b)) = (ident \<notin> set supported_ids)
   \<and> (ident \<notin> set supported_ids \<longrightarrow>
        snd (loadStylesheet A ident b) =
          Inl (Error (js ''The browser build does not support @import for "'' @ ident @ js ''"''))
        \<and> fst (loadStylesheet A ident b) =
          I_hit_failed ident b
            (js ''The browser build does not support @import for "'' @ ident @ js ''"''))
   \<and> loadModule args =
        Inl (Error (js ''The browser build does not support plugins or config files.''))\<close>
proof (intro conjI impI)
  show "isl (snd (loadStylesheet A ident b)) = (ident \<notin> set supported_ids)"
    by (simp add: loadStylesheet_result load_supported)
  show "loadModule args =
        Inl (Error (js ''The browser build does not support plugins or config files.''))"
    by (simp add: loadModule_def)
qed (simp_all add: loadStylesheet_def load_unsupported)

theorem resolver_closed_table_witness:
  \<open>js ''lodash'' \<notin> set supported_ids
   \<and> snd (loadStylesheet demo_assets (js ''lodash'') (js ''/'')) =
         Inl (Error (js ''The browser build does not support @import for "lodash"''))
   \<and> \<not> isl (snd (loadStylesheet demo_assets (js ''./theme.css'') (js ''/'')))\<close>
  using resolver_closed_table [of demo_assets "js ''lodash''" "js ''/''"]
    resolver_closed_table [of demo_assets "js ''./theme.css''" "js ''/''"]
  by (simp add: supported_ids_def js_def)

section \<open>Properties of the registry and of a build task\<close>

lemma set_set_add: "set (set_add cls registry) = insert cls (set registry)"
  by (auto simp: set_add_def)

lemma prefix_set_add: "prefix registry (set_add cls registry)"
  by (simp add: set_add_def)

lemma distinct_set_add: "distinct registry \<Longrightarrow> distinct (set_add cls registry)"
  by (simp add: set_add_def)

lemma set_add_all: "set (add_all cs registry) = set cs \<union> set registry"
  by (induction cs arbitrary: registry) (auto simp: set_set_add)

lemma prefix_add_all: "prefix registry (add_all cs registry)"
proof (induction cs arbitrary: registry)
  case Nil
  show ?case by simp
next
  case (Cons cls rest)
  have "prefix registry (set_add cls registry)" by (rule prefix_set_add)
  also have "prefix (set_add cls registry) (add_all rest (set_add cls registry))" by (rule Cons.IH)
  finally show ?case by simp
qed

lemma distinct_add_all: "distinct registry \<Longrightarrow> distinct (add_all cs registry)"
  by (induction cs arbitrary: registry) (auto simp: distinct_set_add)

lemma no_new_iff: "(filter (\<lambda>cls. cls \<notin> set registry) cs = []) = (set cs \<subseteq> set registry)"
  by (auto simp: filter_empty_conv)

lemma set_add_all_new:
  "set (add_all (filter (\<lambda>cls. cls \<notin> set registry) cs) registry) = set cs \<union> set registry"
  by (auto simp: set_add_all)

subsection \<open>The synchronous part of a task\<close>

lemma process_new_skip:
  "set cs \<subseteq> set (processedClasses w) \<Longrightarrow> process_new E cs w = (Inr (), w)"
  by (simp add: process_new_def no_new_iff)

lemma process_new_registry:
  "processedClasses (snd (process_new E cs w)) =
     add_all (filter (\<lambda>cls. cls \<notin> set (processedClasses w)) cs) (processedClasses w)"
  by (simp add: process_new_def Let_def split: option.splits sum.splits)

lemma process_new_compiler: "compiler (snd (process_new E cs w)) = compiler w"
  by (simp add: process_new_def Let_def split: option.splits sum.splits)

lemma process_new_history:
  "history (snd (process_new E cs w)) =
     history w @
       (if set cs \<subseteq> set (processedClasses w) then []
        else case compiler w of
               None \<Rightarrow> []
             | Some engine \<Rightarrow>
                 [Build engine (add_all (filter (\<lambda>cls. cls \<notin> set (processedClasses w)) cs)
                                  (processedClasses w))])"
  by (simp add: process_new_def Let_def no_new_iff split: option.splits sum.splits)

lemma process_new_build_fails:
  assumes "compiler w = Some engine" and "\<not> set cs \<subseteq> set (processedClasses w)"
    and "build E engine (add_all (filter (\<lambda>cls. cls \<notin> set (processedClasses w)) cs) (processedClasses w)) = Inl err"
  shows "fst (process_new E cs w) = Inl err" and "sheet (snd (process_new E cs w)) = sheet w"
  using assms by (simp_all add: process_new_def Let_def no_new_iff)

lemma process_new_outcome:
  assumes "compiler w = Some engine" and "sheet w \<noteq> None"
  shows "fst (process_new E cs w) = Inr ()
         \<or> (\<exists>names err. build E engine names = Inl err \<and> fst (process_new E cs w) = Inl err)"
  using assms by (auto simp: process_new_def Let_def split: sum.splits)

lemma process_new_sheet_skip:
  "set cs \<subseteq> set (processedClasses w) \<Longrightarrow> sheet (snd (process_new E cs w)) = sheet w"
  by (simp add: process_new_skip)

subsection \<open>Initialisation\<close>

lemma init_fail:
  "compile_css E (css_source customCss) = Inl err \<Longrightarrow>
     initializeCompiler E customCss w =
       (Inl err, init_finally (init_loaded E (css_source customCss)
                                 (init_begin (css_source customCss) w)))"
  by (simp add: initializeCompiler_def init_finish_def Let_def)

lemma init_ok:
  "compile_css E (css_source customCss) = Inr engine \<Longrightarrow>
     initializeCompiler E customCss w =
       (Inr (), init_finally ((init_loaded E (css_source customCss)
                                 (init_begin (css_source customCss) w))
          \<lparr>compiler := Some engine,
            sheet := (case sheet w of None \<Rightarrow> Some [] | Some text \<Rightarrow> Some text)\<rparr>))"
  by (simp add: initializeCompiler_def init_finish_def init_begin_def Let_def)

lemma init_finally_fields [simp]:
  "compiler (init_finally w) = compiler w" "sheet (init_finally w) = sheet w"
  "processedClasses (init_finally w) = processedClasses w" "history (init_finally w) = history w"
  "promises (init_finally w) = promises w" "reactions (init_finally w) = reactions w"
  "running (init_finally w) = running w" "inits (init_finally w) = inits w"
  "buildQueue (init_finally w) = buildQueue w"
  by (simp_all add: init_finally_def)

lemma init_loaded_fields [simp]:
  "compiler (init_loaded E css w) = compiler w" "sheet (init_loaded E css w) = sheet w"
  "processedClasses (init_loaded E css w) = processedClasses w"
  "history (init_loaded E css w) = history w"
  "promises (init_loaded E css w) = promises w" "reactions (init_loaded E css w) = reactions w"
  "running (init_loaded E css w) = running w" "inits (init_loaded E css w) = inits w"
  "buildQueue (init_loaded E css w) = buildQueue w"
  by (simp_all add: init_loaded_def)

lemma init_begin_fields [simp]:
  "compiler (init_begin css w) = compiler w" "sheet (init_begin css w) = sheet w"
  "processedClasses (init_begin css w) = processedClasses w"
  "history (init_begin css w) = history w @ [Compile css]"
  "promises (init_begin css w) = promises w" "reactions (init_begin css w) = reactions w"
  "running (init_begin css w) = running w" "inits (init_begin css w) = inits w"
  "buildQueue (init_begin css w) = buildQueue w"
  by (simp_all add: init_begin_def)

subsection \<open>A whole task\<close>

lemma processClasses_installed:
  "compiler w \<noteq> None \<Longrightarrow> processClasses E cs w = process_new E cs w"
  by (auto simp: processClasses_def)

lemma processClasses_init_fails:
  "compiler w = None \<Longrightarrow> compile_css E default_css = Inl err \<Longrightarrow>
     processClasses E cs w =
       (Inl err, init_finally (init_loaded E default_css (init_begin default_css w)))"
  by (simp add: processClasses_def init_fail css_source_def)

lemma installed_fields [simp]:
  "compiler (installed E engine w) = Some engine"
  "sheet (installed E engine w) = (case sheet w of None \<Rightarrow> Some [] | Some text \<Rightarrow> Some text)"
  "processedClasses (installed E engine w) = processedClasses w"
  "history (installed E engine w) = history w @ [Compile default_css]"
  by (simp_all add: installed_def)

lemma processClasses_init_ok:
  "compiler w = None \<Longrightarrow> compile_css E default_css = Inr engine \<Longrightarrow>
     processClasses E cs w = process_new E cs (installed E engine w)"
  by (simp add: processClasses_def init_ok css_source_def installed_def)

lemma processClasses_cases:
  obtains (ready) "compiler w \<noteq> None" "processClasses E cs w = process_new E cs w"
  | (init_fails) err where "compiler w = None" "compile_css E default_css = Inl err"
      "processClasses E cs w =
         (Inl err, init_finally (init_loaded E default_css (init_begin default_css w)))"
  | (init_ok) engine where "compiler w = None" "compile_css E default_css = Inr engine"
      "processClasses E cs w = process_new E cs (installed E engine w)"
proof (cases "compiler w = None")
  case False
  then show ?thesis by (intro ready) (simp_all add: processClasses_installed)
next
  case True
  show ?thesis
  proof (cases "compile_css E default_css")
    case (Inl err)
    then show ?thesis using True by (intro init_fails) (simp_all add: processClasses_init_fails)
  next
    case (Inr engine)
    then show ?thesis using True by (intro init_ok) (simp_all add: processClasses_init_ok)
  qed
qed

lemma processClasses_registry:
  "prefix (processedClasses w) (processedClasses (snd (processClasses E cs w)))"
  by (cases E cs w rule: processClasses_cases) (simp_all add: process_new_registry prefix_add_all)

lemma processClasses_registry_known:
  "set cs \<subseteq> set (processedClasses w) \<Longrightarrow>
     processedClasses (snd (processClasses E cs w)) = processedClasses w"
  by (cases E cs w rule: processClasses_cases) (simp_all add: process_new_skip)

lemma processClasses_inserts:
  "compiler (snd (processClasses E cs w)) \<noteq> None \<Longrightarrow>
     set cs \<subseteq> set (processedClasses (snd (processClasses E cs w)))"
  by (cases E cs w rule: processClasses_cases)
     (auto simp: process_new_registry set_add_all process_new_compiler)

lemma processClasses_ok_installed:
  "fst (processClasses E cs w) = Inr () \<Longrightarrow> compiler (snd (processClasses E cs w)) \<noteq> None"
  by (cases E cs w rule: processClasses_cases) (auto simp: process_new_compiler)

lemma processClasses_builds_known:
  "set cs \<subseteq> set (processedClasses w) \<Longrightarrow>
     filter is_build (history (snd (processClasses E cs w))) = filter is_build (history w)"
  by (cases E cs w rule: processClasses_cases) (simp_all add: process_new_skip)

lemma processClasses_sheet_known:
  assumes "set cs \<subseteq> set (processedClasses w)"
  shows "sheet (snd (processClasses E cs w)) = (if compiler w = None \<and> sheet w = None \<and> \<not> isl (compile_css E default_css) then Some [] else sheet w)"
  using assms
  by (cases E cs w rule: processClasses_cases) (auto simp: process_new_skip split: option.splits)

lemma processClasses_repeat:
  assumes "compiler (snd (processClasses E cs w)) \<noteq> None"
  shows "processClasses E cs (snd (processClasses E cs w)) = (Inr (), snd (processClasses E cs w))"
  using assms processClasses_inserts [OF assms]
  by (simp add: processClasses_installed process_new_skip)




subsection \<open>The event loop and the registry\<close>

lemma finish_task_fields [simp]:
  "processedClasses (finish_task dst cs rw) = processedClasses (snd rw)"
  "compiler (finish_task dst cs rw) = compiler (snd rw)"
  "sheet (finish_task dst cs rw) = sheet (snd rw)"
  "reactions (finish_task dst cs rw) = reactions (snd rw)"
  "running (finish_task dst cs rw) = running (snd rw)"
  "inits (finish_task dst cs rw) = inits (snd rw)"
  "buildQueue (finish_task dst cs rw) = buildQueue (snd rw)"
  "instr (finish_task dst cs rw) = instr (snd rw)"
  by (simp_all add: finish_task_def split: prod.splits)

lemma queue_fields [simp]:
  "processedClasses (queueClassProcessing cs w) = processedClasses w"
  "compiler (queueClassProcessing cs w) = compiler w"
  "sheet (queueClassProcessing cs w) = sheet w"
  "history (queueClassProcessing cs w) = history w"
  "instr (queueClassProcessing cs w) = instr w"
  "running (queueClassProcessing cs w) = running w"
  "inits (queueClassProcessing cs w) = inits w"
  by (simp_all add: queueClassProcessing_def Let_def)

lemma tw_world: "snd (tw inputs w) = queueClassProcessing (snd (tw_inputs inputs ([], []))) w"
  by (simp add: tw_def split: prod.splits)

lemma init_finish_registry [simp]:
  "processedClasses (snd (init_finish E css w)) = processedClasses w"
  by (simp add: init_finish_def split: sum.splits)

lemma process_new_prefix:
  "prefix registry (processedClasses w) \<Longrightarrow>
     prefix registry (processedClasses (snd (process_new E cs w)))"
  using prefix_add_all prefix_order.trans by (fastforce simp: process_new_registry)

lemma fire_registry:
  "fire E r w = Some w' \<Longrightarrow> prefix (processedClasses w) (processedClasses w')"
  by (auto simp: fire_def Let_def process_new_prefix
        split: reaction.splits if_splits pstate.splits)

lemma resume_registry: "prefix (processedClasses w) (processedClasses (resume E j w))"
proof -
  obtain dst cs st where t: "running w ! j = (dst, cs, st)" by (cases "running w ! j")
  show ?thesis
  proof (cases st)
    case Awaiting_init
    obtain r w1 where fin: "init_finish E default_css w = (r, w1)"
      by (cases "init_finish E default_css w")
    have "processedClasses w1 = processedClasses w"
      using init_finish_registry [of E default_css w] fin by simp
    then show ?thesis by (simp add: resume_def t Awaiting_init fin)
  next
    case (Init_settled r)
    then show ?thesis by (cases r) (simp_all add: resume_def t process_new_prefix)
  qed
qed

lemma step_registry:
  "step E ev w = Some w' \<Longrightarrow> prefix (processedClasses w) (processedClasses w')"
proof (cases ev)
  case (Fire i)
  assume "step E ev w = Some w'"
  then have "fire E (reactions w ! i) (w\<lparr>reactions := remove_nth i (reactions w)\<rparr>) = Some w'"
    by (simp add: step_def Fire split: if_splits)
  from fire_registry [OF this] show ?thesis by simp
next
  case (Resume j)
  assume "step E ev w = Some w'"
  then have "w' = resume E j w"
    by (simp add: step_def Resume split: if_splits)
  then show ?thesis
    using resume_registry [of w E j] by simp
qed (auto simp: step_def tw_world Let_def split: if_splits)

lemma step_or_skip_registry:
  "prefix (processedClasses w) (processedClasses (step_or_skip E w ev))"
  by (auto simp: step_or_skip_def step_registry split: option.splits)

lemma exec_append: "exec E (evs @ evs') w = exec E evs' (exec E evs w)"
  by (simp add: exec_def)

lemma exec_registry: "prefix (processedClasses w) (processedClasses (exec E evs w))"
proof (induction evs rule: rev_induct)
  case Nil
  show ?case by (simp add: exec_def)
next
  case (snoc ev evs)
  have "prefix (processedClasses (exec E evs w))
          (processedClasses (step_or_skip E (exec E evs w) ev))"
    by (rule step_or_skip_registry)
  with snoc show ?case
    by (simp add: exec_def)
qed

section \<open>Properties of the queue\<close>

subsection \<open>What the parts of a step leave alone\<close>

lemma process_new_frame [simp]:
  "promises (snd (process_new E cs w)) = promises w"
  "reactions (snd (process_new E cs w)) = reactions w"
  "running (snd (process_new E cs w)) = running w"
  "inits (snd (process_new E cs w)) = inits w"
  "buildQueue (snd (process_new E cs w)) = buildQueue w"
  "reported (instr (snd (process_new E cs w))) = reported (instr w)"
  by (simp_all add: process_new_def Let_def reported_def split: option.splits sum.splits)

lemma reported_compile_hits [simp]: "reported (compile_hits E css) = []"
proof -
  have "reported (map (\<lambda>(ident, b). fst (loadStylesheet A ident b)) calls) = []" for A calls
    by (induction calls) (auto simp: reported_def loadStylesheet_def split: sum.splits)
  then show ?thesis by (simp add: compile_hits_def)
qed

lemma reported_append [simp]: "reported (xs @ ys) = reported xs @ reported ys"
  by (simp add: reported_def)

lemma init_loaded_reported [simp]:
  "reported (instr (init_loaded E css w)) = reported (instr w)"
  by (simp add: init_loaded_def)

lemma init_finish_frame [simp]:
  "promises (snd (init_finish E css w)) = promises w"
  "reactions (snd (init_finish E css w)) = reactions w"
  "running (snd (init_finish E css w)) = running w"
  "inits (snd (init_finish E css w)) = inits w"
  "buildQueue (snd (init_finish E css w)) = buildQueue w"
  "history (snd (init_finish E css w)) = history w"
  "reported (instr (snd (init_finish E css w))) = reported (instr w)"
  by (simp_all add: init_finish_def init_finally_def split: sum.splits)
     (simp_all add: reported_def)

lemma init_begin_reported [simp]: "reported (instr (init_begin css w)) = reported (instr w)"
  by (simp add: init_begin_def reported_def)

lemma finish_task_promises [simp]:
  "promises (finish_task dst cs rw) =
     (promises (snd rw))[dst := pstate_of (case fst rw of Inl err \<Rightarrow> Some err | Inr u \<Rightarrow> None)]"
  "history (finish_task dst cs rw) =
     history (snd rw) @ [Leave cs (processedClasses (snd rw))
                           (case fst rw of Inl err \<Rightarrow> Some err | Inr u \<Rightarrow> None)]"
  by (simp_all add: finish_task_def pstate_of_def split: prod.splits sum.splits)

lemma process_new_done:
  "task_done d cs w (finish_task d cs (process_new E cs w))"
  unfolding task_done_def
  apply (rule exI [of _ "case fst (process_new E cs w) of Inl err \<Rightarrow> Some err | Inr u \<Rightarrow> None"])
  apply (rule exI [of _ "drop (length (history w)) (history (snd (process_new E cs w)))"])
  apply (simp add: process_new_history process_new_registry prefix_add_all split: option.splits)
  done

lemma failed_done:
  assumes "promises w' = promises w" "history w' = history w" "processedClasses w' = processedClasses w"
    "reported (instr w') = reported (instr w)" "reactions w' = reactions w" "running w' = running w"
    "inits w' = inits w" "buildQueue w' = buildQueue w"
  shows "task_done d cs w (finish_task d cs (Inl err, w'))"
  unfolding task_done_def
  apply (rule exI [of _ "Some err"])
  apply (rule exI [of _ "[]"])
  apply (simp add: assms)
  done

lemma task_done_pre:
  assumes "task_done d cs w' w2"
    and "promises w' = promises w" "history w' = history w" "processedClasses w' = processedClasses w"
    "reported (instr w') = reported (instr w)" "reactions w' = reactions w" "running w' = running w"
    "inits w' = inits w" "buildQueue w' = buildQueue w"
  shows "task_done d cs w w2"
  using assms unfolding task_done_def by simp

lemma init_finish_outcome:
  "fst (init_finish E css w) = (case compile_css E css of Inl err \<Rightarrow> Inl err | Inr c \<Rightarrow> Inr ())"
  by (simp add: init_finish_def split: sum.splits)

lemma resume_settle:
  assumes "running w ! j = (d, cs, Awaiting_init)"
  shows "resume E j w =
           (snd (init_finish E default_css w))
             \<lparr>running := (running w)
                [j := (d, cs, Init_settled (case compile_css E default_css of
                                              Inl err \<Rightarrow> Some err | Inr c \<Rightarrow> None))]\<rparr>"
proof -
  have "(case fst (init_finish E default_css w) of Inl err \<Rightarrow> Some err | Inr u \<Rightarrow> None)
          = (case compile_css E default_css of Inl err \<Rightarrow> Some err | Inr c \<Rightarrow> None)"
    by (simp add: init_finish_outcome split: sum.splits)
  then show ?thesis
    by (simp add: resume_def assms case_prod_beta)
qed

lemma resume_go:
  assumes "running w ! j = (d, cs, Init_settled r)"
  shows "task_done d cs (w\<lparr>running := remove_nth j (running w)\<rparr>) (resume E j w)"
proof (cases r)
  case None
  then show ?thesis by (simp add: resume_def assms process_new_done)
next
  case (Some err)
  then show ?thesis by (simp add: resume_def assms) (rule failed_done; simp)
qed

subsection \<open>The chain of promises\<close>

lemma shapes_append: "shapes d (rs @ rs') = (shapes d rs \<and> shapes (d + length rs) rs')"
  by (induction rs arbitrary: d) simp_all

lemma shapes_nth: "shapes d rs \<Longrightarrow> i < length rs \<Longrightarrow> shape (d + i) (rs ! i)"
proof (induction rs arbitrary: d i)
  case Nil
  then show ?case by simp
next
  case (Cons r rs)
  then show ?case using Cons.IH [of "Suc d"] by (cases i) auto
qed

lemma settled_below_more:
  "settled_below f ps \<Longrightarrow> settled_below f (ps @ [Pending, Pending])"
  by (auto simp: settled_below_def nth_append less_Suc_eq)

lemma settled_below_settle:
  assumes "settled_below f ps" and "f < length ps" and "st \<noteq> Pending"
    and "even f \<Longrightarrow> st = Fulfilled"
  shows "settled_below (Suc f) (ps[f := st])"
  using assms by (auto simp: settled_below_def nth_list_update less_Suc_eq)

lemma settled_below_src:
  "settled_below f ps \<Longrightarrow> src < length ps \<Longrightarrow> ps ! src \<noteq> Pending \<Longrightarrow> src < f"
  by (auto simp: settled_below_def)

lemma outstanding_odd:
  "settled_below f ps \<Longrightarrow> odd f \<Longrightarrow> outstanding f ps = []"
  by (auto simp: settled_below_def outstanding_def elim!: oddE)

lemma outstanding_more:
  "settled_below f ps \<Longrightarrow> outstanding f (ps @ extra) = outstanding f ps"
  by (auto simp: settled_below_def outstanding_def nth_append)

lemma outstanding_settled:
  "f < length ps \<Longrightarrow> outstanding (Suc f) (ps[f := pstate_of r]) = (case r of None \<Rightarrow> [] | Some err \<Rightarrow> [err])"
  by (simp add: outstanding_def pstate_of_def split: option.splits)

lemma chain_grow:
  assumes "sorted_wrt prefix (xs @ [r])" and "prefix r r'"
  shows "sorted_wrt prefix (xs @ [r'])" and "sorted_wrt prefix (xs @ [r', r'])"
    and "sorted_wrt prefix (xs @ [r, r'])" and "sorted_wrt prefix (xs @ [r', r', r'])"
    and "sorted_wrt prefix (xs @ [r, r])"
  using assms by (auto simp: sorted_wrt_append intro: prefix_order.trans)

subsection \<open>The steps keep the invariant\<close>

lemma inv_initial: "run_inv [] 1 initial"
  by (simp add: run_inv_def queue_inv_def history_inv_def initial_def settled_below_def open_task_def
      entered_def left_def pending_def enqueued_def snaps_def raised_def reported_def
      outstanding_def)

lemma inv_same_queue:
  assumes "run_inv evs f w" and "enqueued evs' = enqueued evs"
  shows "run_inv evs' f w"
  using assms by (simp add: run_inv_def history_inv_def)

lemma inv_tw:
  assumes "run_inv evs f w"
  shows "run_inv (evs @ [Call_tw inputs]) f (snd (tw inputs w))"
proof -
  let ?cs = "snd (tw_inputs inputs ([], []))"
  let ?w = "queueClassProcessing ?cs w"
  have q: "queue_inv f w" and h: "history_inv evs f w"
    using assms by (simp_all add: run_inv_def)
  from q have sb: "settled_below f (promises w)" by (simp add: queue_inv_def)
  have "queue_inv f ?w"
    using q
    by (auto simp: queue_inv_def queueClassProcessing_def Let_def settled_below_more shapes_append
          simp del: even_add odd_add split: list.splits)
       (metis even_Suc)
  moreover have "history_inv (evs @ [Call_tw inputs]) f ?w"
    using h sb
    by (simp add: history_inv_def queueClassProcessing_def Let_def open_task_def pending_def
          enqueued_def outstanding_more)
  ultimately show ?thesis by (simp add: run_inv_def tw_world)
qed

lemma chain_twice: "sorted_wrt prefix (xs @ [r]) \<Longrightarrow> sorted_wrt prefix (xs @ [r, r])"
  by (auto simp: sorted_wrt_append)

lemma inv_fields:
  assumes "run_inv evs f w"
    and "promises w' = promises w" "reactions w' = reactions w" "running w' = running w"
    and "buildQueue w' = buildQueue w" "processedClasses w' = processedClasses w"
    and "reported (instr w') = reported (instr w)"
    and "history w' = history w \<or> (\<exists>css. history w' = history w @ [Compile css])"
  shows "run_inv evs f w'"
proof -
  have q: "queue_inv f w'"
    using assms by (simp add: run_inv_def queue_inv_def cong: list.case_cong)
  have o: "open_task w' = open_task w"
    using assms by (simp add: open_task_def)
  from assms(8) have "history_inv evs f w'"
  proof
    assume "history w' = history w"
    then show ?thesis using assms(1-7) o by (simp add: run_inv_def history_inv_def)
  next
    assume "\<exists>css. history w' = history w @ [Compile css]"
    then obtain css where c: "history w' = history w @ [Compile css]" ..
    have b: "foldl bracket (Some None) (history w) = Some (open_task w)"
      using assms(1) by (simp add: run_inv_def history_inv_def)
    show ?thesis
      using assms(1-7) o b
      by (simp add: run_inv_def history_inv_def c entered_def left_def raised_def snaps_def)
  qed
  with q show ?thesis by (simp add: run_inv_def)
qed

lemma inv_call_init:
  assumes "run_inv evs f w"
  shows "run_inv (evs @ [Call_initializeCompiler customCss]) f
           ((init_begin css w)\<lparr>inits := inits w @ [css]\<rparr>)"
proof -
  have "run_inv evs f ((init_begin css w)\<lparr>inits := inits w @ [css]\<rparr>)"
    using assms by (rule inv_fields) simp_all
  then show ?thesis by (rule inv_same_queue) (simp add: enqueued_def)
qed

lemma inv_resume_init:
  assumes "run_inv evs f w"
  shows "run_inv (evs @ [Resume_init j]) f (snd (init_finish E css (w\<lparr>inits := rest\<rparr>)))"
proof -
  have "run_inv evs f (snd (init_finish E css (w\<lparr>inits := rest\<rparr>)))"
    using assms by (rule inv_fields) simp_all
  then show ?thesis by (rule inv_same_queue) (simp add: enqueued_def)
qed

text \<open>A task enters.\<close>

lemma inv_enter:
  assumes "run_inv evs f w" and "running w = []" and "reactions w = OnThen src cs dst # rest"
  shows "run_inv evs f (w\<lparr>reactions := rest, running := [(f, cs, Awaiting_init)],
                      history := history w @ [Enter cs (processedClasses w)]\<rparr>)"
    and "dst = f" and "Suc src = f"
proof -
  have q: "queue_inv f w" and h: "history_inv evs f w"
    using assms(1) by (simp_all add: run_inv_def)
  from q assms(2,3) show d: "dst = f" and s: "Suc src = f"
    by (simp_all add: queue_inv_def)
  from q assms(2,3) have "queue_inv f (w\<lparr>reactions := rest, running := [(f, cs, Awaiting_init)],
                      history := history w @ [Enter cs (processedClasses w)]\<rparr>)"
    by (simp add: queue_inv_def)
  moreover from h assms(2,3) have "history_inv evs f (w\<lparr>reactions := rest, running := [(f, cs, Awaiting_init)],
                      history := history w @ [Enter cs (processedClasses w)]\<rparr>)"
    by (simp add: history_inv_def open_task_def entered_def left_def raised_def snaps_def
        pending_def chain_twice)
  ultimately show "run_inv evs f (w\<lparr>reactions := rest, running := [(f, cs, Awaiting_init)],
                      history := history w @ [Enter cs (processedClasses w)]\<rparr>)"
    by (simp add: run_inv_def)
qed

text \<open>The open task leaves.\<close>

lemma inv_done:
  assumes "run_inv evs f (w\<lparr>running := [(f, cs, st)]\<rparr>)" and "running w = []"
    and "task_done f cs w w2"
  shows "run_inv evs (Suc f) w2"
proof -
  let ?w = "w\<lparr>running := [(f, cs, st)]\<rparr>"
  have q: "queue_inv f ?w" and h: "history_inv evs f ?w"
    using assms(1) by (simp_all add: run_inv_def)
  from assms(3) obtain r bs where
    p2: "promises w2 = (promises w)[f := pstate_of r]"
    and h2: "history w2 = history w @ bs @ [Leave cs (processedClasses w2) r]"
    and bs: "bs = [] \<or> (\<exists>c. bs = [Build c (processedClasses w2)])"
    and g2: "prefix (processedClasses w) (processedClasses w2)"
    and i2: "reported (instr w2) = reported (instr w)"
    and rest: "reactions w2 = reactions w" "running w2 = running w" "buildQueue w2 = buildQueue w"
    unfolding task_done_def by blast
  from q have odd: "odd f" and len: "Suc f + length (reactions w) = length (promises w)"
    and sh: "shapes (Suc f) (reactions w)" and sb: "settled_below f (promises w)"
    and n: "odd (length (promises w))" and bq: "Suc (buildQueue w) = length (promises w)"
    by (simp_all add: queue_inv_def)
  have st: "pstate_of r \<noteq> Pending"
    by (simp add: pstate_of_def split: option.splits)
  have sb2: "settled_below (Suc f) (promises w2)"
    unfolding p2 using sb _ st by (rule settled_below_settle) (use len odd in simp_all)
  have q2: "queue_inv (Suc f) w2"
    using sb2 len sh n bq assms(2) by (simp add: queue_inv_def rest p2)
  have o: "open_task ?w = Some cs" and o2: "open_task w2 = None"
    using assms(2) by (simp_all add: open_task_def rest)
  from h o have b: "foldl bracket (Some None) (history w) = Some (Some cs)"
    and fifo: "entered (history w) @ pending (reactions w) = enqueued evs"
    and lf: "left (history w) @ [cs] = entered (history w)"
    and ch: "sorted_wrt prefix (snaps (history w) @ [processedClasses w])"
    and er: "raised (history w) = reported (instr w) @ outstanding f (promises w)"
    by (simp_all add: history_inv_def)
  have out: "outstanding f (promises w) = []"
    using sb odd by (rule outstanding_odd)
  have out2: "outstanding (Suc f) (promises w2) = (case r of None \<Rightarrow> [] | Some err \<Rightarrow> [err])"
    unfolding p2 by (rule outstanding_settled) (use len in simp)
  have "history_inv evs (Suc f) w2"
    unfolding history_inv_def
  proof (intro conjI)
    show "foldl bracket (Some None) (history w2) = Some (open_task w2)"
      using bs b by (auto simp: h2 o2)
    show "entered (history w2) @ pending (reactions w2) = enqueued evs"
      using bs fifo by (auto simp: h2 rest entered_def)
    show "left (history w2) @ (case open_task w2 of None \<Rightarrow> [] | Some classNames \<Rightarrow> [classNames])
          = entered (history w2)"
      using bs lf by (auto simp: h2 o2 entered_def left_def)
    show "sorted_wrt prefix (snaps (history w2) @ [processedClasses w2])"
      using bs chain_grow(2,4) [OF ch g2] by (auto simp: h2 snaps_def)
    show "raised (history w2) = reported (instr w2) @ outstanding (Suc f) (promises w2)"
      using bs er by (auto simp: h2 i2 out out2 raised_def split: option.splits)
  qed
  with q2 show ?thesis by (simp add: run_inv_def)
qed

text \<open>The callback of a \<^verbatim>\<open>catch\<close> runs.\<close>

lemma inv_catch:
  assumes "run_inv evs f w" and "running w = []" and "reactions w = OnCatch src dst # rest"
    and "src < length (promises w)"
  shows "run_inv evs (Suc f)
           (w\<lparr>reactions := rest,
              instr := instr w @ (case promises w ! src of Rejected err \<Rightarrow> [I_error err] | _ \<Rightarrow> []),
              promises := (promises w)[dst := Fulfilled]\<rparr>)"
    (is "run_inv evs (Suc f) ?w2")
proof -
  have q: "queue_inv f w" and h: "history_inv evs f w"
    using assms(1) by (simp_all add: run_inv_def)
  from q assms(2,3) have d: "dst = f" and s: "Suc src = f" and ev: "even f"
    and len: "Suc (f + length rest) = length (promises w)"
    and sh: "shapes (Suc f) rest" and sb: "settled_below f (promises w)"
    and n: "odd (length (promises w))" and bq: "Suc (buildQueue w) = length (promises w)"
    by (simp_all add: queue_inv_def)
  have sb2: "settled_below (Suc f) ((promises w)[f := Fulfilled])"
    using sb by (rule settled_below_settle) (use len in simp_all)
  have q2: "queue_inv (Suc f) ?w2"
    using sb2 len sh n bq assms(2) by (simp add: queue_inv_def d)
  have src: "src = f - 1" using s by simp
  have o: "open_task ?w2 = open_task w"
    by (simp add: open_task_def)
  have rep: "reported (instr ?w2) = reported (instr w) @ outstanding f (promises w)"
    by (simp add: reported_def outstanding_def src split: pstate.splits)
  have out2: "outstanding (Suc f) (promises ?w2) = []"
    using len by (simp add: outstanding_def d)
  have "history_inv evs (Suc f) ?w2"
    using h assms(3) unfolding history_inv_def o rep out2
    by (simp add: pending_def)
  with q2 show ?thesis by (simp add: run_inv_def)
qed

lemma fire_enabled:
  assumes "fire E r w0 = Some w'"
  shows "case r of OnThen src cs dst \<Rightarrow> src < length (promises w0) \<and> promises w0 ! src \<noteq> Pending
                 | OnCatch src dst \<Rightarrow> src < length (promises w0) \<and> promises w0 ! src \<noteq> Pending"
  using assms by (auto simp: fire_def split: reaction.splits if_splits pstate.splits)

lemma fire_head:
  assumes q: "queue_inv f w" and i: "i < length (reactions w)"
    and fire: "fire E (reactions w ! i) w0 = Some w'" and p: "promises w0 = promises w"
  shows "i = 0 \<and> running w = []"
proof -
  from q have sb: "settled_below f (promises w)" by (simp add: queue_inv_def)
  obtain k where k: "k = f \<and> running w = [] \<or> k = Suc f" and sh: "shapes k (reactions w)"
    using q by (auto simp: queue_inv_def split: list.splits)
  have s: "shape (k + i) (reactions w ! i)"
    using sh i by (rule shapes_nth)
  have "k + i \<le> f"
  proof (cases "reactions w ! i")
    case (OnThen src cs dst)
    with fire_enabled [OF fire] p have "src < length (promises w)" "promises w ! src \<noteq> Pending"
      by simp_all
    with sb have "src < f" by (rule settled_below_src)
    with s OnThen show ?thesis by simp
  next
    case (OnCatch src dst)
    with fire_enabled [OF fire] p have "src < length (promises w)" "promises w ! src \<noteq> Pending"
      by simp_all
    with sb have "src < f" by (rule settled_below_src)
    with s OnCatch show ?thesis by simp
  qed
  with k show ?thesis by auto
qed

lemma step_none_queue: "step E ev w = None \<Longrightarrow> enqueued (evs @ [ev]) = enqueued evs"
  by (cases ev) (simp_all add: step_def enqueued_def Let_def)

lemma inv_stage:
  assumes "run_inv evs f w" and "running w = [(d, cs, st)]"
  shows "run_inv evs f (w\<lparr>running := [(d, cs, st')]\<rparr>)"
  using assms by (simp add: run_inv_def queue_inv_def history_inv_def open_task_def)

lemma inv_resume:
  assumes "run_inv evs f w" and "j < length (running w)"
  shows "run_inv (evs @ [Resume j]) f (resume E j w)
         \<or> run_inv (evs @ [Resume j]) (Suc f) (resume E j w)"
proof -
  from assms obtain cs st where r: "running w = [(f, cs, st)]" and j: "j = 0"
    by (auto simp: run_inv_def queue_inv_def split: list.splits)
  have "run_inv evs f (resume E j w) \<or> run_inv evs (Suc f) (resume E j w)"
  proof (cases st)
    case Awaiting_init
    let ?w' = "snd (init_finish E default_css w)"
    have "run_inv evs f ?w'"
      using assms(1) by (rule inv_fields) simp_all
    moreover have "running ?w' = [(f, cs, Awaiting_init)]"
      by (simp add: r Awaiting_init)
    ultimately have "run_inv evs f (?w'\<lparr>running := [(f, cs, Init_settled
        (case compile_css E default_css of Inl err \<Rightarrow> Some err | Inr c \<Rightarrow> None))]\<rparr>)"
      by (rule inv_stage)
    moreover have "running w ! 0 = (f, cs, Awaiting_init)"
      by (simp add: r Awaiting_init)
    ultimately show ?thesis
      by (simp add: resume_settle [of w 0 f cs E] r j)
  next
    case (Init_settled out)
    have w: "w\<lparr>running := []\<rparr>\<lparr>running := [(f, cs, st)]\<rparr> = w"
      using r by simp
    have "task_done f cs (w\<lparr>running := []\<rparr>) (resume E j w)"
      using resume_go [of w j f cs out E] by (simp add: r j Init_settled remove_nth_def)
    then have "run_inv evs (Suc f) (resume E j w)"
      by (intro inv_done [where w = "w\<lparr>running := []\<rparr>" and cs = cs and st = st])
         (simp_all add: w assms(1))
    then show ?thesis by simp
  qed
  moreover have "enqueued (evs @ [Resume j]) = enqueued evs"
    by (simp add: enqueued_def)
  ultimately show ?thesis using inv_same_queue by blast
qed

lemma inv_fire:
  assumes run_inv: "run_inv evs f w" and i: "i < length (reactions w)"
    and fire: "fire E (reactions w ! i) (w\<lparr>reactions := remove_nth i (reactions w)\<rparr>) = Some w'"
  shows "run_inv (evs @ [Fire i]) f w' \<or> run_inv (evs @ [Fire i]) (Suc f) w'"
proof -
  have q: "queue_inv f w" using run_inv by (simp add: run_inv_def)
  then have sb: "settled_below f (promises w)" by (simp add: queue_inv_def)
  have "i = 0 \<and> running w = []"
    using q i fire by (rule fire_head) simp
  then have i0: "i = 0" and run: "running w = []" by simp_all
  obtain r rest where rs: "reactions w = r # rest"
    using i by (cases "reactions w") auto
  let ?w0 = "w\<lparr>reactions := rest\<rparr>"
  have f0: "fire E r ?w0 = Some w'"
    using fire by (simp add: i0 rs remove_nth_def)
  have "run_inv evs f w' \<or> run_inv evs (Suc f) w'"
  proof (cases r)
    case (OnCatch src dst)
    from fire_enabled [OF f0] have src: "src < length (promises w)" "promises w ! src \<noteq> Pending"
      by (simp_all add: OnCatch)
    have "w' = w\<lparr>reactions := rest,
              instr := instr w @ (case promises w ! src of Rejected err \<Rightarrow> [I_error err] | _ \<Rightarrow> []),
              promises := (promises w)[dst := Fulfilled]\<rparr>"
      using f0 src by (auto simp: fire_def OnCatch split: pstate.splits)
    moreover have "run_inv evs (Suc f) (w\<lparr>reactions := rest,
              instr := instr w @ (case promises w ! src of Rejected err \<Rightarrow> [I_error err] | _ \<Rightarrow> []),
              promises := (promises w)[dst := Fulfilled]\<rparr>)"
      using run_inv run _ src(1) by (rule inv_catch) (simp add: rs OnCatch)
    ultimately show ?thesis by simp
  next
    case (OnThen src cs dst)
    let ?we = "w\<lparr>reactions := rest, running := [(f, cs, Awaiting_init)],
                  history := history w @ [Enter cs (processedClasses w)]\<rparr>"
    let ?w1 = "?w0\<lparr>history := history ?w0 @ [Enter cs (processedClasses ?w0)]\<rparr>"
    have e: "run_inv evs f ?we" and d: "dst = f" and s: "Suc src = f"
      using inv_enter [OF run_inv run, of src cs dst rest] by (simp_all add: rs OnThen)
    from q run rs OnThen have oddf: "odd f" by (simp add: queue_inv_def)
    have "even src" "src < f" using s oddf by auto
    with sb have ful: "promises w ! src = Fulfilled" by (simp add: settled_below_def)
    from fire_enabled [OF f0] have src: "src < length (promises w)"
      by (simp add: OnThen)
    show ?thesis
    proof (cases "compiler w = None")
      case True
      have w': "w' = (init_begin default_css ?w1)\<lparr>running := [(f, cs, Awaiting_init)]\<rparr>"
        using f0 src ful True run by (simp add: fire_def OnThen d Let_def)
      have "run_inv evs f ((init_begin default_css ?w1)\<lparr>running := [(f, cs, Awaiting_init)]\<rparr>)"
        using e by (rule inv_fields) simp_all
      then show ?thesis by (simp add: w')
    next
      case False
      have w': "w' = finish_task f cs (process_new E cs ?w1)"
        using f0 src ful False by (simp add: fire_def OnThen d Let_def)
      have we: "?w1\<lparr>running := [(f, cs, Awaiting_init)]\<rparr> = ?we" by simp
      have "run_inv evs (Suc f) (finish_task f cs (process_new E cs ?w1))"
        by (rule inv_done [where w = ?w1 and cs = cs and st = Awaiting_init])
           (simp_all only: we e process_new_done, simp add: run)
      then show ?thesis by (simp add: w')
    qed
  qed
  moreover have "enqueued (evs @ [Fire i]) = enqueued evs"
    by (simp add: enqueued_def)
  ultimately show ?thesis using inv_same_queue by blast
qed

lemma inv_step:
  assumes "run_inv evs f w" and "step E ev w = Some w'"
  shows "\<exists>f'. run_inv (evs @ [ev]) f' w'"
proof (cases ev)
  case (Call_tw inputs)
  then show ?thesis using assms inv_tw [OF assms(1), of inputs] by (auto simp: step_def)
next
  case (Call_initializeCompiler customCss)
  then show ?thesis
    using assms inv_call_init [OF assms(1), of customCss "css_source customCss"]
    by (auto simp: step_def Let_def)
next
  case (Fire i)
  then show ?thesis
    using assms inv_fire [OF assms(1), of i E w'] by (auto simp: step_def split: if_splits)
next
  case (Resume j)
  then show ?thesis
    using assms inv_resume [OF assms(1), of j E] by (auto simp: step_def split: if_splits)
next
  case (Resume_init j)
  then show ?thesis
    using assms inv_resume_init [OF assms(1), of j E "inits w ! j" "remove_nth j (inits w)"]
    by (auto simp: step_def split: if_splits)
qed

lemma inv_step_or_skip:
  assumes "run_inv evs f w"
  shows "\<exists>f'. run_inv (evs @ [ev]) f' (step_or_skip E w ev)"
proof (cases "step E ev w")
  case None
  then have "enqueued (evs @ [ev]) = enqueued evs" by (rule step_none_queue)
  with assms have "run_inv (evs @ [ev]) f w" by (rule inv_same_queue)
  then show ?thesis using None by (auto simp: step_or_skip_def)
next
  case (Some w')
  with assms show ?thesis using inv_step by (simp add: step_or_skip_def)
qed

lemma inv_exec: "\<exists>f. run_inv evs f (exec E evs initial)"
proof (induction evs rule: rev_induct)
  case Nil
  show ?case using inv_initial by (auto simp: exec_def)
next
  case (snoc ev evs)
  then obtain f where "run_inv evs f (exec E evs initial)" ..
  then show ?case using inv_step_or_skip [of evs f _ ev E] by (simp add: exec_def)
qed

subsection \<open>Running until nothing is waiting\<close>

lemma next_event_not_tw: "next_event w = Some ev \<Longrightarrow> enqueued (evs @ [ev]) = enqueued evs"
  by (auto simp: next_event_def enqueued_def split: if_splits)

lemma inv_run_jobs: "run_inv evs f w \<Longrightarrow> \<exists>f'. run_inv evs f' (run_jobs k E w)"
proof (induction k arbitrary: f w)
  case 0
  then show ?case by auto
next
  case (Suc k)
  show ?case
  proof (cases "next_event w")
    case None
    with Suc.prems show ?thesis by auto
  next
    case (Some ev)
    obtain f' where "run_inv (evs @ [ev]) f' (step_or_skip E w ev)"
      using inv_step_or_skip [OF Suc.prems] by blast
    then have "run_inv evs f' (step_or_skip E w ev)"
      by (rule inv_same_queue) (simp add: next_event_not_tw [OF Some])
    from Suc.IH [OF this] show ?thesis by (simp add: Some)
  qed
qed

lemma task_done_bound:
  "task_done d cs w w2 \<Longrightarrow> jobs_bound w2 = jobs_bound w"
  by (auto simp: task_done_def jobs_bound_def)

lemma no_steps_left:
  "sum_list (map (\<lambda>(dst, classNames, st). stage_steps st) tasks) = 0 \<Longrightarrow> tasks = []"
proof (cases tasks)
  case Nil
  then show ?thesis by simp
next
  case (Cons t rest)
  obtain d cs st where "t = (d, cs, st)" by (cases t)
  moreover assume "sum_list (map (\<lambda>(dst, classNames, st). stage_steps st) tasks) = 0"
  ultimately show ?thesis using Cons by (cases st) simp_all
qed

lemma progress:
  assumes "run_inv evs f w" and "next_event w = Some ev"
  shows "jobs_bound (step_or_skip E w ev) < jobs_bound w"
proof -
  have q: "queue_inv f w" using assms(1) by (simp add: run_inv_def)
  consider (resume) "running w \<noteq> []" "ev = Resume 0"
    | (init) "running w = []" "inits w \<noteq> []" "ev = Resume_init 0"
    | (fire) "running w = []" "inits w = []" "reactions w \<noteq> []" "ev = Fire 0"
    using assms(2) by (auto simp: next_event_def split: if_splits)
  then show ?thesis
  proof cases
    case resume
    from q resume(1) obtain cs st where r: "running w = [(f, cs, st)]"
      by (auto simp: queue_inv_def split: list.splits)
    show ?thesis
    proof (cases st)
      case Awaiting_init
      then show ?thesis
        by (simp add: step_or_skip_def step_def resume r jobs_bound_def
            resume_settle [of w 0 f cs])
    next
      case (Init_settled out)
      have "task_done f cs (w\<lparr>running := []\<rparr>) (resume E 0 w)"
        using resume_go [of w 0 f cs out E] by (simp add: r Init_settled remove_nth_def)
      then have "jobs_bound (resume E 0 w) = jobs_bound (w\<lparr>running := []\<rparr>)"
        by (rule task_done_bound)
      then show ?thesis
        by (simp add: step_or_skip_def step_def resume r Init_settled jobs_bound_def)
    qed
  next
    case init
    then show ?thesis
      by (cases "inits w") (simp_all add: step_or_skip_def step_def remove_nth_def jobs_bound_def)
  next
    case fire
    then obtain r rest where rs: "reactions w = r # rest" by (cases "reactions w") auto
    from q have sb: "settled_below f (promises w)" by (simp add: queue_inv_def)
    from q fire(1) rs have sh: "shape f r" by (simp add: queue_inv_def)
    let ?w0 = "w\<lparr>reactions := rest\<rparr>"
    have b0: "jobs_bound ?w0 + 3 = jobs_bound w"
      by (simp add: jobs_bound_def rs)
    have "\<exists>w'. fire E r ?w0 = Some w' \<and> jobs_bound w' \<le> jobs_bound ?w0 + 2"
    proof (cases r)
      case (OnCatch src dst)
      with sh have "Suc src = f" by simp
      with sb have "src < length (promises w)" "promises w ! src \<noteq> Pending"
        by (auto simp: settled_below_def)
      then show ?thesis
        by (auto simp: fire_def OnCatch jobs_bound_def split: pstate.splits)
    next
      case (OnThen src cs dst)
      with sh have "Suc src = f" "odd f" by simp_all
      then have "src < f" "even src" by auto
      with sb have src: "src < length (promises w)" "promises w ! src = Fulfilled"
        by (auto simp: settled_below_def)
      let ?w1 = "?w0\<lparr>history := history ?w0 @ [Enter cs (processedClasses ?w0)]\<rparr>"
      have "jobs_bound (finish_task dst cs (process_new E cs ?w1)) = jobs_bound ?w1"
        using process_new_done by (rule task_done_bound)
      then show ?thesis
        using src by (simp add: fire_def OnThen Let_def jobs_bound_def)
    qed
    then show ?thesis
      using b0 by (auto simp: step_or_skip_def step_def fire rs remove_nth_def)
  qed
qed

lemma run_jobs_quiescent:
  "run_inv evs f w \<Longrightarrow> jobs_bound w \<le> k \<Longrightarrow> next_event (run_jobs k E w) = None"
proof (induction k arbitrary: f w)
  case 0
  then show ?case using no_steps_left [of "running w"] by (simp add: jobs_bound_def next_event_def)
next
  case (Suc k)
  show ?case
  proof (cases "next_event w")
    case None
    then show ?thesis by simp
  next
    case (Some ev)
    obtain f' where "run_inv (evs @ [ev]) f' (step_or_skip E w ev)"
      using inv_step_or_skip [OF Suc.prems(1)] by blast
    then have i: "run_inv evs f' (step_or_skip E w ev)"
      by (rule inv_same_queue) (simp add: next_event_not_tw [OF Some])
    have "jobs_bound (step_or_skip E w ev) \<le> k"
      using progress [OF Suc.prems(1) Some, of E] Suc.prems(2) by simp
    from Suc.IH [OF i this] show ?thesis by (simp add: Some)
  qed
qed

lemma before_odd: "Suc b = n \<Longrightarrow> odd n \<Longrightarrow> even b \<and> b < n"
  by auto

lemma quiescent_fields:
  "next_event w = None \<Longrightarrow> running w = [] \<and> inits w = [] \<and> reactions w = []"
  by (auto simp: next_event_def split: if_splits)

lemma inv_quiescent:
  assumes "run_inv evs f w" and "next_event w = None"
  shows "left (history w) = enqueued evs" and "reported (instr w) = raised (history w)"
    and "promises w ! buildQueue w = Fulfilled"
proof -
  have e: "running w = []" "reactions w = []"
    using quiescent_fields [OF assms(2)] by simp_all
  have q: "queue_inv f w" and h: "history_inv evs f w"
    using assms(1) by (simp_all add: run_inv_def)
  from q e have f: "f = length (promises w)" and n: "odd (length (promises w))"
    and bq: "Suc (buildQueue w) = length (promises w)"
    by (simp_all add: queue_inv_def)
  from q have sb: "settled_below f (promises w)"
    by (simp add: queue_inv_def)
  from h e show "left (history w) = enqueued evs"
    by (simp add: history_inv_def open_task_def pending_def)
  have "outstanding f (promises w) = []"
    using sb n by (intro outstanding_odd) (simp_all add: f)
  with h show "reported (instr w) = raised (history w)"
    by (simp add: history_inv_def)
  have "buildQueue w < f" "even (buildQueue w)"
    using before_odd [OF bq n] f by simp_all
  with sb show "promises w ! buildQueue w = Fulfilled"
    by (simp add: settled_below_def)
qed

lemma inv_facts:
  assumes "run_inv evs f w"
  shows "length (running w) \<le> 1" and "serial (history w)"
    and "entered (history w) @ pending (reactions w) = enqueued evs"
    and "prefix (left (history w)) (entered (history w))"
    and "length (entered (history w)) \<le> Suc (length (left (history w)))"
    and "sorted_wrt prefix (snaps (history w) @ [processedClasses w])"
    and "prefix (reported (instr w)) (raised (history w))"
    and "length (raised (history w)) \<le> Suc (length (reported (instr w)))"
    and "promises w ! buildQueue w = Pending \<or> promises w ! buildQueue w = Fulfilled"
proof -
  have q: "queue_inv f w" and h: "history_inv evs f w"
    using assms(1) by (simp_all add: run_inv_def)
  from q show "length (running w) \<le> 1"
    by (auto simp: queue_inv_def split: list.splits)
  from h show "serial (history w)"
    by (simp add: history_inv_def serial_def)
  from h show "entered (history w) @ pending (reactions w) = enqueued evs"
    by (simp add: history_inv_def)
  from h have l: "left (history w) @ (case open_task w of None \<Rightarrow> [] | Some cs \<Rightarrow> [cs])
          = entered (history w)"
    by (simp add: history_inv_def)
  then show "prefix (left (history w)) (entered (history w))"
    by (metis prefixI)
  from l show "length (entered (history w)) \<le> Suc (length (left (history w)))"
    by (cases "open_task w") (auto dest: arg_cong [where f = length])
  from h show "sorted_wrt prefix (snaps (history w) @ [processedClasses w])"
    by (simp add: history_inv_def)
  from h have r: "raised (history w) = reported (instr w) @ outstanding f (promises w)"
    by (simp add: history_inv_def)
  then show "prefix (reported (instr w)) (raised (history w))"
    by simp
  from r show "length (raised (history w)) \<le> Suc (length (reported (instr w)))"
    by (simp add: outstanding_def split: pstate.splits)
  from q have sb: "settled_below f (promises w)" and n: "odd (length (promises w))"
    and bq: "Suc (buildQueue w) = length (promises w)"
    by (simp_all add: queue_inv_def)
  have "even (buildQueue w)" "buildQueue w < length (promises w)"
    using before_odd [OF bq n] by simp_all
  with sb show "promises w ! buildQueue w = Pending \<or> promises w ! buildQueue w = Fulfilled"
    by (auto simp: settled_below_def)
qed

lemma two_calls_run:
  "history (exec demo_env two_calls initial) =
     [Enter [js ''a'', js ''b''] [], Compile default_css,
      Build default_css [js ''a'', js ''b''],
      Leave [js ''a'', js ''b''] [js ''a'', js ''b''] None,
      Enter [js ''b'', js ''c''] [js ''a'', js ''b''],
      Build default_css [js ''a'', js ''b'', js ''c''],
      Leave [js ''b'', js ''c''] [js ''a'', js ''b'', js ''c''] None]"
  by code_simp

subsection \<open>The engine a task builds on\<close>

text \<open>The engine invariant holds in every run of the program.\<close>

lemma set_remove_nth: "set (remove_nth j xs) \<subseteq> set xs"
  unfolding remove_nth_def using set_take_subset [of j xs] set_drop_subset [of "Suc j" xs] by auto

lemma recorded_more: "recorded E h engine \<Longrightarrow> set h \<subseteq> set h' \<Longrightarrow> recorded E h' engine"
  by (auto simp: recorded_def)

lemma process_new_engine:
  assumes "compiler w \<noteq> None" and "sheet w \<noteq> None"
  shows "compiler (snd (process_new E cs w)) \<noteq> None" and "sheet (snd (process_new E cs w)) \<noteq> None"
  using assms by (auto simp: process_new_def Let_def split: sum.splits)

lemma process_new_own_error:
  assumes "own_errors E" and "compiler w \<noteq> None" and "sheet w \<noteq> None"
  shows "fst (process_new E cs w) \<noteq> Inl (TypeError_undefined p)"
proof -
  from assms(2) obtain engine where c: "compiler w = Some engine" by auto
  from process_new_outcome [OF c assms(3), of E cs] assms(1) show ?thesis
    by (auto simp: own_errors_def)
qed

lemma raised_snoc:
  "raised (h @ [e]) = raised h @ (case e of Leave cs registry (Some err) \<Rightarrow> [err] | _ \<Rightarrow> [])"
  by (simp add: raised_def)

lemma raised_process_new [simp]: "raised (history (snd (process_new E cs w))) = raised (history w)"
  by (auto simp: process_new_history raised_def split: option.splits)

lemma process_new_entries:
  assumes "compiler w = Some engine"
  shows "set (history (snd (process_new E cs w)))
           \<subseteq> set (history w) \<union> {Build engine names | names. True}"
    and "set (history w) \<subseteq> set (history (snd (process_new E cs w)))"
  using assms by (auto simp: process_new_history)

lemma engine_invI:
  assumes "compiler w \<noteq> None \<Longrightarrow> sheet w \<noteq> None"
    and "\<And>engine. compiler w = Some engine \<Longrightarrow> recorded E (history w) engine"
    and "\<And>engine names. Build engine names \<in> set (history w) \<Longrightarrow> recorded E (history w) engine"
    and "\<And>css. css \<in> set (inits w) \<Longrightarrow> Compile css \<in> set (history w)"
    and "\<And>d cs st. (d, cs, st) \<in> set (running w) \<Longrightarrow> Compile default_css \<in> set (history w)"
    and "\<And>d cs. (d, cs, Init_settled None) \<in> set (running w) \<Longrightarrow> compiler w \<noteq> None"
  shows "engine_inv E w"
  unfolding engine_inv_def using assms by blast

lemma engine_invD:
  assumes "engine_inv E w"
  shows "compiler w \<noteq> None \<Longrightarrow> sheet w \<noteq> None"
    and "compiler w = Some engine \<Longrightarrow> recorded E (history w) engine"
    and "Build engine names \<in> set (history w) \<Longrightarrow> recorded E (history w) engine"
    and "css \<in> set (inits w) \<Longrightarrow> Compile css \<in> set (history w)"
    and "(d, cs, st) \<in> set (running w) \<Longrightarrow> Compile default_css \<in> set (history w)"
    and "(d, cs, Init_settled None) \<in> set (running w) \<Longrightarrow> compiler w \<noteq> None"
  using assms unfolding engine_inv_def by blast+

text \<open>A history entry that is neither a compile nor a build changes nothing.\<close>

lemma engine_note:
  assumes "engine_inv E w" and "\<not> is_build e"
  shows "engine_inv E (w\<lparr>history := history w @ [e]\<rparr>)"
proof -
  have m: "recorded E (history w @ [e]) engine" if "recorded E (history w) engine" for engine
    using that by (rule recorded_more) auto
  show ?thesis
  proof (rule engine_invI)
    fix engine names
    assume "Build engine names \<in> set (history (w\<lparr>history := history w @ [e]\<rparr>))"
    with assms(2) have "Build engine names \<in> set (history w)" by auto
    then show "recorded E (history (w\<lparr>history := history w @ [e]\<rparr>)) engine"
      using engine_invD(3) [OF assms(1)] m by simp
  qed (use assms(1) m in \<open>auto dest: engine_invD\<close>)
qed

lemma engine_fields:
  assumes "engine_inv E w"
    and "compiler w' = compiler w" "sheet w' = sheet w" "history w' = history w"
    and "set (inits w') \<subseteq> set (inits w)" "set (running w') \<subseteq> set (running w)"
  shows "engine_inv E w'"
proof (rule engine_invI)
  show "sheet w' \<noteq> None" if "compiler w' \<noteq> None"
    using that engine_invD(1) [OF assms(1)] assms(2,3) by simp
  show "recorded E (history w') engine" if "compiler w' = Some engine" for engine
    using that engine_invD(2) [OF assms(1)] assms(2,4) by simp
  show "recorded E (history w') engine" if "Build engine names \<in> set (history w')" for engine names
    using that engine_invD(3) [OF assms(1)] assms(4) by simp
  show "Compile css \<in> set (history w')" if "css \<in> set (inits w')" for css
    using that engine_invD(4) [OF assms(1)] assms(4,5) by auto
  show "Compile default_css \<in> set (history w')" if "(d, cs, st) \<in> set (running w')" for d cs st
    using that engine_invD(5) [OF assms(1)] assms(4,6) by auto
  show "compiler w' \<noteq> None" if "(d, cs, Init_settled None) \<in> set (running w')" for d cs
    using that engine_invD(6) [OF assms(1)] assms(2,6) by auto
qed

lemma engine_finish:
  assumes "engine_inv E w" and "compiler w \<noteq> None"
  shows "engine_inv E (finish_task dst cs (process_new E cs w))"
proof -
  let ?w1 = "snd (process_new E cs w)"
  from assms(2) obtain engine where c: "compiler w = Some engine" by auto
  from assms have s: "sheet w \<noteq> None" and r: "recorded E (history w) engine"
    by (simp_all add: engine_inv_def c)
  have sub: "set (history w) \<subseteq> set (history ?w1)"
    using c by (rule process_new_entries)
  have more: "recorded E (history ?w1) e" if "recorded E (history w) e" for e
    using that sub by (rule recorded_more)
  have "engine_inv E ?w1"
  proof (rule engine_invI)
    show "sheet ?w1 \<noteq> None" using process_new_engine [OF assms(2) s] by simp
    show "recorded E (history ?w1) e" if "compiler ?w1 = Some e" for e
      using that c r more by (simp add: process_new_compiler)
    show "recorded E (history ?w1) e" if "Build e names \<in> set (history ?w1)" for e names
    proof (cases "Build e names \<in> set (history w)")
      case True
      then have "recorded E (history w) e" by (rule engine_invD(3) [OF assms(1)])
      then show ?thesis by (rule more)
    next
      case False
      with that process_new_entries(1) [OF c, of E cs] have "e = engine" by auto
      with r more show ?thesis by simp
    qed
    show "Compile css \<in> set (history ?w1)" if "css \<in> set (inits ?w1)" for css
      using that engine_invD(4) [OF assms(1), of css] sub by auto
    show "Compile default_css \<in> set (history ?w1)" if "(d, cs', st) \<in> set (running ?w1)" for d cs' st
      using that engine_invD(5) [OF assms(1), of d cs' st] sub by auto
    show "compiler ?w1 \<noteq> None"
      by (simp add: process_new_compiler c)
  qed
  then have "engine_inv E (?w1\<lparr>history := history ?w1 @
      [Leave cs (processedClasses ?w1)
         (case fst (process_new E cs w) of Inl err \<Rightarrow> Some err | Inr u \<Rightarrow> None)]\<rparr>)"
    by (rule engine_note) simp
  then show ?thesis
    by (rule engine_fields) simp_all
qed

lemma engine_init_finish:
  assumes "engine_inv E w" and "Compile css \<in> set (history w)"
  shows "engine_inv E (snd (init_finish E css w))"
proof (cases "compile_css E css")
  case (Inl err)
  then have "snd (init_finish E css w) = init_finally (init_loaded E css w)"
    by (simp add: init_finish_def)
  moreover have "engine_inv E (init_finally (init_loaded E css w))"
    using assms(1) by (rule engine_fields) simp_all
  ultimately show ?thesis by simp
next
  case (Inr engine)
  then have rec: "recorded E (history w) engine"
    using assms(2) by (auto simp: recorded_def)
  let ?w' = "snd (init_finish E css w)"
  have c: "compiler ?w' = Some engine" and s: "sheet ?w' \<noteq> None"
    by (simp_all add: init_finish_def Inr split: option.splits)
  show ?thesis
  proof (rule engine_invI)
    show "sheet ?w' \<noteq> None" by (rule s)
    show "recorded E (history ?w') e" if "compiler ?w' = Some e" for e
      using that c rec by simp
    show "recorded E (history ?w') e" if "Build e names \<in> set (history ?w')" for e names
      using that engine_invD(3) [OF assms(1), of e names] by simp
    show "Compile css' \<in> set (history ?w')" if "css' \<in> set (inits ?w')" for css'
      using that engine_invD(4) [OF assms(1), of css'] by simp
    show "Compile default_css \<in> set (history ?w')" if "(d, cs, st) \<in> set (running ?w')" for d cs st
      using that engine_invD(5) [OF assms(1), of d cs st] by simp
    show "compiler ?w' \<noteq> None" by (simp add: c)
  qed
qed

lemma engine_resume:
  assumes "engine_inv E w" and "j < length (running w)"
  shows "engine_inv E (resume E j w)"
proof -
  obtain d cs st where t: "running w ! j = (d, cs, st)" by (cases "running w ! j")
  then have mem: "(d, cs, st) \<in> set (running w)"
    using assms(2) by (metis nth_mem)
  with assms(1) have dc: "Compile default_css \<in> set (history w)"
    by (auto simp: engine_inv_def)
  let ?w0 = "w\<lparr>running := remove_nth j (running w)\<rparr>"
  have e0: "engine_inv E ?w0"
    using assms(1) by (rule engine_fields) (simp_all add: set_remove_nth)
  show ?thesis
  proof (cases st)
    case Awaiting_init
    let ?w' = "snd (init_finish E default_css w)"
    let ?r = "case compile_css E default_css of Inl err \<Rightarrow> Some err | Inr c \<Rightarrow> None"
    have e': "engine_inv E ?w'"
      using assms(1) dc by (rule engine_init_finish)
    have c': "compiler ?w' \<noteq> None" if "?r = None"
      using that by (simp add: init_finish_def split: sum.splits)
    have keep: "compiler ?w' \<noteq> None" if "compiler w \<noteq> None"
      using that by (simp add: init_finish_def split: sum.splits)
    have upd: "t = (d, cs, Init_settled ?r) \<or> t \<in> set (running w)"
      if "t \<in> set ((running w)[j := (d, cs, Init_settled ?r)])" for t
      using that set_update_subset_insert [of "running w" j "(d, cs, Init_settled ?r)"] by auto
    have "engine_inv E (?w'\<lparr>running := (running w)[j := (d, cs, Init_settled ?r)]\<rparr>)"
    proof (rule engine_invI)
      fix d' cs'
      assume "(d', cs', Init_settled None)
                \<in> set (running (?w'\<lparr>running := (running w)[j := (d, cs, Init_settled ?r)]\<rparr>))"
      then have "(d', cs', Init_settled None) \<in> set ((running w)[j := (d, cs, Init_settled ?r)])"
        by simp
      then have "(d', cs', Init_settled None) = (d, cs, Init_settled ?r)
                 \<or> (d', cs', Init_settled None) \<in> set (running w)"
        by (rule upd)
      then show "compiler (?w'\<lparr>running := (running w)[j := (d, cs, Init_settled ?r)]\<rparr>) \<noteq> None"
        using c' keep engine_invD(6) [OF assms(1), of d' cs'] by auto
    qed (use e' dc in \<open>auto dest: engine_invD\<close>)
    then show ?thesis
      using resume_settle [of w j d cs E] t Awaiting_init by simp
  next
    case (Init_settled r)
    show ?thesis
    proof (cases r)
      case None
      from assms(1) mem have "compiler w \<noteq> None"
        by (auto simp: engine_inv_def Init_settled None)
      then have "engine_inv E (finish_task d cs (process_new E cs ?w0))"
        using e0 by (intro engine_finish) simp_all
      then show ?thesis by (simp add: resume_def t Init_settled None)
    next
      case (Some err)
      have "engine_inv E (?w0\<lparr>history := history ?w0 @ [Leave cs (processedClasses ?w0) (Some err)]\<rparr>)"
        using e0 by (rule engine_note) simp
      then have "engine_inv E (finish_task d cs (Inl err, ?w0))"
        by (rule engine_fields) simp_all
      then show ?thesis by (simp add: resume_def t Init_settled Some)
    qed
  qed
qed

lemma fire_catch_fields:
  assumes "fire E (OnCatch src dst) w = Some w'"
  shows "compiler w' = compiler w" "sheet w' = sheet w" "history w' = history w"
    "inits w' = inits w" "running w' = running w"
  using assms by (auto simp: fire_def split: if_splits pstate.splits)

lemma fire_then_cases:
  assumes "fire E (OnThen src cs dst) w = Some w'"
  shows "(\<exists>err. w' = w\<lparr>promises := (promises w)[dst := Rejected err]\<rparr>)
    \<or> w' = (init_begin default_css (w\<lparr>history := history w @ [Enter cs (processedClasses w)]\<rparr>))
            \<lparr>running := running w @ [(dst, cs, Awaiting_init)]\<rparr>
    \<or> (compiler w \<noteq> None
        \<and> w' = finish_task dst cs
                 (process_new E cs (w\<lparr>history := history w @ [Enter cs (processedClasses w)]\<rparr>)))"
  using assms by (auto simp: fire_def Let_def split: if_splits pstate.splits)

lemma engine_wait:
  assumes "engine_inv E w"
  shows "engine_inv E
           ((init_begin default_css (w\<lparr>history := history w @ [Enter cs (processedClasses w)]\<rparr>))
              \<lparr>running := running w @ [(dst, cs, Awaiting_init)]\<rparr>)"
    (is "engine_inv E ?w'")
proof -
  have h: "set (history ?w') = insert (Enter cs (processedClasses w))
                                 (insert (Compile default_css) (set (history w)))"
    by auto
  have m: "recorded E (history ?w') engine" if "recorded E (history w) engine" for engine
    using that by (rule recorded_more) (auto simp: h)
  have f: "compiler ?w' = compiler w" "sheet ?w' = sheet w" "inits ?w' = inits w"
    "set (running ?w') = insert (dst, cs, Awaiting_init) (set (running w))"
    by simp_all
  show ?thesis
  proof (rule engine_invI)
    show "sheet ?w' \<noteq> None" if "compiler ?w' \<noteq> None"
      using that engine_invD(1) [OF assms(1)] by (auto simp only: f)
    show "recorded E (history ?w') engine" if "compiler ?w' = Some engine" for engine
      using that engine_invD(2) [OF assms(1), of engine] m by (auto simp only: f)
    show "recorded E (history ?w') engine" if "Build engine names \<in> set (history ?w')" for engine names
    proof -
      from that have "Build engine names \<in> set (history w)" unfolding h by simp
      then show ?thesis using engine_invD(3) [OF assms(1)] m by blast
    qed
    show "Compile css \<in> set (history ?w')" if "css \<in> set (inits ?w')" for css
    proof -
      from that have "css \<in> set (inits w)" by (simp only: f)
      then have "Compile css \<in> set (history w)" by (rule engine_invD(4) [OF assms(1)])
      then show ?thesis unfolding h by simp
    qed
    show "Compile default_css \<in> set (history ?w')" for d cs st
      unfolding h by simp
    show "compiler ?w' \<noteq> None" if "(d, cs', Init_settled None) \<in> set (running ?w')" for d cs'
    proof -
      from that have "(d, cs', Init_settled None) \<in> set (running w)" unfolding f by simp
      then have "compiler w \<noteq> None" by (rule engine_invD(6) [OF assms(1)])
      then show ?thesis by (auto simp only: f)
    qed
  qed
qed

lemma engine_fire:
  assumes "engine_inv E w" and "fire E r w = Some w'"
  shows "engine_inv E w'"
proof (cases r)
  case (OnCatch src dst)
  from assms(2) have f: "fire E (OnCatch src dst) w = Some w'" by (simp only: OnCatch)
  show ?thesis
    using assms(1) by (rule engine_fields) (simp_all add: fire_catch_fields [OF f])
next
  case (OnThen src cs dst)
  let ?w1 = "w\<lparr>history := history w @ [Enter cs (processedClasses w)]\<rparr>"
  have e1: "engine_inv E ?w1"
    using assms(1) by (rule engine_note) simp
  from assms(2) have f: "fire E (OnThen src cs dst) w = Some w'" by (simp only: OnThen)
  from fire_then_cases [OF f]
  consider (pass) err where "w' = w\<lparr>promises := (promises w)[dst := Rejected err]\<rparr>"
    | (wait) "w' = (init_begin default_css ?w1)\<lparr>running := running w @ [(dst, cs, Awaiting_init)]\<rparr>"
    | (run) "compiler w \<noteq> None" "w' = finish_task dst cs (process_new E cs ?w1)"
    by blast
  then show ?thesis
  proof cases
    case pass
    show ?thesis
      unfolding pass using assms(1) by (rule engine_fields) simp_all
  next
    case wait
    show ?thesis
      unfolding wait using assms(1) by (rule engine_wait)
  next
    case run
    have "compiler ?w1 \<noteq> None" using run(1) by simp
    with e1 show ?thesis
      unfolding run(2) by (rule engine_finish)
  qed
qed

lemma engine_begin:
  assumes "engine_inv E w"
  shows "engine_inv E ((init_begin css w)\<lparr>inits := inits w @ [css]\<rparr>)"
    (is "engine_inv E ?w'")
proof -
  have h: "set (history ?w') = insert (Compile css) (set (history w))"
    by auto
  have m: "recorded E (history ?w') engine" if "recorded E (history w) engine" for engine
    using that by (rule recorded_more) (auto simp: h)
  have f: "compiler ?w' = compiler w" "sheet ?w' = sheet w"
    "set (inits ?w') = insert css (set (inits w))" "running ?w' = running w"
    by simp_all
  show ?thesis
  proof (rule engine_invI)
    show "sheet ?w' \<noteq> None" if "compiler ?w' \<noteq> None"
      using that engine_invD(1) [OF assms(1)] by (auto simp only: f)
    show "recorded E (history ?w') engine" if "compiler ?w' = Some engine" for engine
      using that engine_invD(2) [OF assms(1), of engine] m by (auto simp only: f)
    show "recorded E (history ?w') engine" if "Build engine names \<in> set (history ?w')" for engine names
    proof -
      from that have "Build engine names \<in> set (history w)" unfolding h by simp
      then show ?thesis using engine_invD(3) [OF assms(1)] m by blast
    qed
    show "Compile c \<in> set (history ?w')" if "c \<in> set (inits ?w')" for c
    proof -
      from that have "c = css \<or> c \<in> set (inits w)" unfolding f by simp
      then show ?thesis
        unfolding h using engine_invD(4) [OF assms(1), of c] by auto
    qed
    show "Compile default_css \<in> set (history ?w')" if "(d, cs, st) \<in> set (running ?w')" for d cs st
    proof -
      from that have "(d, cs, st) \<in> set (running w)" unfolding f .
      then have "Compile default_css \<in> set (history w)" by (rule engine_invD(5) [OF assms(1)])
      then show ?thesis unfolding h by simp
    qed
    show "compiler ?w' \<noteq> None" if "(d, cs, Init_settled None) \<in> set (running ?w')" for d cs
    proof -
      from that have "(d, cs, Init_settled None) \<in> set (running w)" unfolding f .
      then have "compiler w \<noteq> None" by (rule engine_invD(6) [OF assms(1)])
      then show ?thesis by (auto simp only: f)
    qed
  qed
qed

lemma engine_queue:
  assumes "engine_inv E w"
  shows "engine_inv E (queueClassProcessing cs w)"
  using assms by (rule engine_fields) simp_all

lemma engine_step:
  assumes "engine_inv E w" and "step E ev w = Some w'"
  shows "engine_inv E w'"
proof (cases ev)
  case (Call_tw inputs)
  with assms(2) have w': "w' = queueClassProcessing (snd (tw_inputs inputs ([], []))) w"
    by (simp add: step_def tw_world)
  show ?thesis unfolding w' using assms(1) by (rule engine_queue)
next
  case (Call_initializeCompiler customCss)
  have w': "w' = (init_begin (css_source customCss) w)\<lparr>inits := inits w @ [css_source customCss]\<rparr>"
    using assms(2) Call_initializeCompiler by (simp add: step_def Let_def)
  show ?thesis unfolding w' using assms(1) by (rule engine_begin)
next
  case (Fire i)
  let ?w0 = "w\<lparr>reactions := remove_nth i (reactions w)\<rparr>"
  have "engine_inv E ?w0" using assms(1) by (rule engine_fields) simp_all
  moreover have "fire E (reactions w ! i) ?w0 = Some w'"
    using assms(2) Fire by (simp add: step_def split: if_splits)
  ultimately show ?thesis by (rule engine_fire)
next
  case (Resume j)
  with assms(2) have j: "j < length (running w)" and w': "w' = resume E j w"
    by (simp_all add: step_def split: if_splits)
  show ?thesis unfolding w' using assms(1) j by (rule engine_resume)
next
  case (Resume_init j)
  let ?w0 = "w\<lparr>inits := remove_nth j (inits w)\<rparr>"
  from assms(2) Resume_init have j: "j < length (inits w)"
    and w': "w' = snd (init_finish E (inits w ! j) ?w0)"
    by (simp_all add: step_def split: if_splits)
  have "engine_inv E ?w0" using assms(1) by (rule engine_fields) (simp_all add: set_remove_nth)
  moreover have "inits w ! j \<in> set (inits w)" using j by simp
  then have "Compile (inits w ! j) \<in> set (history ?w0)"
    using engine_invD(4) [OF assms(1)] by simp
  ultimately show ?thesis unfolding w' by (rule engine_init_finish)
qed

lemma engine_step_or_skip:
  assumes "engine_inv E w"
  shows "engine_inv E (step_or_skip E w ev)"
proof (cases "step E ev w")
  case None
  then show ?thesis using assms by (simp add: step_or_skip_def)
next
  case (Some w')
  with assms have "engine_inv E w'" by (rule engine_step)
  with Some show ?thesis by (simp add: step_or_skip_def)
qed

lemma engine_initial: "engine_inv E initial"
  by (rule engine_invI) (simp_all add: initial_def)

lemma engine_exec: "engine_inv E (exec E evs initial)"
proof (induction evs rule: rev_induct)
  case Nil
  show ?case by (simp add: exec_def engine_initial)
next
  case (snoc ev evs)
  have "exec E (evs @ [ev]) initial = step_or_skip E (exec E evs initial) ev"
    by (simp add: exec_def)
  with snoc show ?case by (simp only: engine_step_or_skip)
qed

subsection \<open>The errors a task throws\<close>

lemma error_invI:
  assumes "\<And>p. TypeError_undefined p \<notin> set (raised (history w))"
    and "\<And>d cs p. (d, cs, Init_settled (Some (TypeError_undefined p))) \<notin> set (running w)"
  shows "error_inv w"
  unfolding error_inv_def using assms by blast

lemma error_invD:
  assumes "error_inv w"
  shows "TypeError_undefined p \<notin> set (raised (history w))"
    and "(d, cs, Init_settled (Some (TypeError_undefined p))) \<notin> set (running w)"
  using assms unfolding error_inv_def by blast+

lemma error_fields:
  assumes "error_inv w"
    and "raised (history w') = raised (history w)" "set (running w') \<subseteq> set (running w)"
  shows "error_inv w'"
proof (rule error_invI)
  show "TypeError_undefined p \<notin> set (raised (history w'))" for p
    using error_invD(1) [OF assms(1), of p] assms(2) by simp
  show "(d, cs, Init_settled (Some (TypeError_undefined p))) \<notin> set (running w')" for d cs p
    using error_invD(2) [OF assms(1), of d cs p] assms(3) by blast
qed

lemma error_finish:
  assumes "error_inv w"
    and "\<And>p. r \<noteq> Inl (TypeError_undefined p)"
    and "raised (history w1) = raised (history w)" "set (running w1) \<subseteq> set (running w)"
  shows "error_inv (finish_task d cs (r, w1))"
proof (rule error_invI)
  show "TypeError_undefined p \<notin> set (raised (history (finish_task d cs (r, w1))))" for p
    using error_invD(1) [OF assms(1), of p] assms(2) [of p]
    by (auto simp: raised_snoc assms(3) split: sum.splits)
  show "(d', cs', Init_settled (Some (TypeError_undefined p))) \<notin> set (running (finish_task d cs (r, w1)))"
    for d' cs' p
    using error_invD(2) [OF assms(1), of d' cs' p] assms(4) by auto
qed

lemma error_process:
  assumes "own_errors E" and "engine_inv E w" and "error_inv w" and "compiler w \<noteq> None"
    and "raised (history w1) = raised (history w)" "set (running w1) \<subseteq> set (running w)"
    and "compiler w1 = compiler w" "sheet w1 = sheet w"
  shows "error_inv (finish_task d cs (process_new E cs w1))"
proof -
  have s: "sheet w \<noteq> None" using assms(4) by (rule engine_invD(1) [OF assms(2)])
  have ne: "fst (process_new E cs w1) \<noteq> Inl (TypeError_undefined p)" for p
    using assms(1) by (rule process_new_own_error) (simp_all add: assms(4,7,8) s)
  have "error_inv (finish_task d cs (fst (process_new E cs w1), snd (process_new E cs w1)))"
    using assms(3) ne by (rule error_finish) (simp_all add: assms(5,6))
  then show ?thesis by simp
qed

lemma error_resume:
  assumes "own_errors E" and "engine_inv E w" and "error_inv w" and "j < length (running w)"
  shows "error_inv (resume E j w)"
proof -
  obtain d cs st where t: "running w ! j = (d, cs, st)" by (cases "running w ! j")
  have mem: "(d, cs, st) \<in> set (running w)"
    using assms(4) t by (metis nth_mem)
  show ?thesis
  proof (cases st)
    case Awaiting_init
    let ?r = "case compile_css E default_css of Inl err \<Rightarrow> Some err | Inr c \<Rightarrow> None"
    have eq: "resume E j w = (snd (init_finish E default_css w))
                \<lparr>running := (running w)[j := (d, cs, Init_settled ?r)]\<rparr>"
      using t unfolding Awaiting_init by (rule resume_settle)
    have ne: "?r \<noteq> Some (TypeError_undefined p)" for p
      using assms(1) by (auto simp: own_errors_def split: sum.splits)
    show ?thesis
      unfolding eq
    proof (rule error_invI)
      show "TypeError_undefined p \<notin> set (raised (history ((snd (init_finish E default_css w))
                \<lparr>running := (running w)[j := (d, cs, Init_settled ?r)]\<rparr>)))" for p
        using error_invD(1) [OF assms(3), of p] by simp
      show "(d', cs', Init_settled (Some (TypeError_undefined p)))
              \<notin> set (running ((snd (init_finish E default_css w))
                \<lparr>running := (running w)[j := (d, cs, Init_settled ?r)]\<rparr>))" for d' cs' p
      proof
        assume "(d', cs', Init_settled (Some (TypeError_undefined p)))
              \<in> set (running ((snd (init_finish E default_css w))
                \<lparr>running := (running w)[j := (d, cs, Init_settled ?r)]\<rparr>))"
        then have "(d', cs', Init_settled (Some (TypeError_undefined p)))
              \<in> insert (d, cs, Init_settled ?r) (set (running w))"
          using set_update_subset_insert [of "running w" j "(d, cs, Init_settled ?r)"] by auto
        then show False
          using error_invD(2) [OF assms(3), of d' cs' p] ne [of p] by auto
      qed
    qed
  next
    case (Init_settled r)
    let ?w0 = "w\<lparr>running := remove_nth j (running w)\<rparr>"
    show ?thesis
    proof (cases r)
      case None
      have c: "compiler w \<noteq> None"
        using mem unfolding Init_settled None by (rule engine_invD(6) [OF assms(2)])
      have eq: "resume E j w = finish_task d cs (process_new E cs ?w0)"
        by (simp add: resume_def t Init_settled None)
      show ?thesis
        unfolding eq using assms(1,2,3) c
        by (rule error_process) (simp_all add: set_remove_nth)
    next
      case (Some err)
      have eq: "resume E j w = finish_task d cs (Inl err, ?w0)"
        by (simp add: resume_def t Init_settled Some)
      have ne: "Inl err \<noteq> (Inl (TypeError_undefined p) :: error + unit)" for p
        using error_invD(2) [OF assms(3), of d cs p] mem unfolding Init_settled Some by auto
      show ?thesis
        unfolding eq using assms(3) ne
        by (rule error_finish) (simp_all add: set_remove_nth)
    qed
  qed
qed

lemma raised_compile [simp]: "raised (h @ [Compile css]) = raised h"
  by (simp add: raised_snoc)

lemma raised_enter [simp]: "raised (h @ [Enter cs registry]) = raised h"
  by (simp add: raised_snoc)

lemma raised_init_begin [simp]: "raised (history (init_begin css w)) = raised (history w)"
  by (simp add: init_begin_def raised_snoc)

lemma error_fire:
  assumes "own_errors E" and "engine_inv E w" and "error_inv w" and "fire E r w = Some w'"
  shows "error_inv w'"
proof (cases r)
  case (OnCatch src dst)
  from assms(4) have f: "fire E (OnCatch src dst) w = Some w'" by (simp only: OnCatch)
  show ?thesis
    using assms(3) by (rule error_fields) (simp_all add: fire_catch_fields [OF f])
next
  case (OnThen src cs dst)
  let ?w1 = "w\<lparr>history := history w @ [Enter cs (processedClasses w)]\<rparr>"
  from assms(4) have f: "fire E (OnThen src cs dst) w = Some w'" by (simp only: OnThen)
  from fire_then_cases [OF f]
  consider (pass) err where "w' = w\<lparr>promises := (promises w)[dst := Rejected err]\<rparr>"
    | (wait) "w' = (init_begin default_css ?w1)\<lparr>running := running w @ [(dst, cs, Awaiting_init)]\<rparr>"
    | (run) "compiler w \<noteq> None" "w' = finish_task dst cs (process_new E cs ?w1)"
    by blast
  then show ?thesis
  proof cases
    case pass
    show ?thesis
      unfolding pass using assms(3) by (rule error_fields) simp_all
  next
    case wait
    show ?thesis
      unfolding wait
    proof (rule error_invI)
      show "TypeError_undefined p \<notin> set (raised (history ((init_begin default_css ?w1)
              \<lparr>running := running w @ [(dst, cs, Awaiting_init)]\<rparr>)))" for p
        using error_invD(1) [OF assms(3), of p] by (simp add: raised_def)
      show "(d', cs', Init_settled (Some (TypeError_undefined p)))
              \<notin> set (running ((init_begin default_css ?w1)
              \<lparr>running := running w @ [(dst, cs, Awaiting_init)]\<rparr>))" for d' cs' p
        using error_invD(2) [OF assms(3), of d' cs' p] by simp
    qed
  next
    case run
    show ?thesis
      unfolding run(2) using assms(1,2,3) run(1)
      by (rule error_process) simp_all
  qed
qed

lemma error_step:
  assumes "own_errors E" and "engine_inv E w" and "error_inv w" and "step E ev w = Some w'"
  shows "error_inv w'"
proof (cases ev)
  case (Call_tw inputs)
  with assms(4) have w': "w' = queueClassProcessing (snd (tw_inputs inputs ([], []))) w"
    by (simp add: step_def tw_world)
  show ?thesis unfolding w' using assms(3) by (rule error_fields) simp_all
next
  case (Call_initializeCompiler customCss)
  have w': "w' = (init_begin (css_source customCss) w)\<lparr>inits := inits w @ [css_source customCss]\<rparr>"
    using assms(4) Call_initializeCompiler by (simp add: step_def Let_def)
  show ?thesis unfolding w' using assms(3) by (rule error_fields) simp_all
next
  case (Fire i)
  let ?w0 = "w\<lparr>reactions := remove_nth i (reactions w)\<rparr>"
  have "engine_inv E ?w0" using assms(2) by (rule engine_fields) simp_all
  moreover have "error_inv ?w0" using assms(3) by (rule error_fields) simp_all
  moreover have "fire E (reactions w ! i) ?w0 = Some w'"
    using assms(4) Fire by (simp add: step_def split: if_splits)
  ultimately show ?thesis by (rule error_fire [OF assms(1)])
next
  case (Resume j)
  with assms(4) have j: "j < length (running w)" and w': "w' = resume E j w"
    by (simp_all add: step_def split: if_splits)
  show ?thesis unfolding w' using assms(1,2,3) j by (rule error_resume)
next
  case (Resume_init j)
  let ?w0 = "w\<lparr>inits := remove_nth j (inits w)\<rparr>"
  from assms(4) Resume_init have w': "w' = snd (init_finish E (inits w ! j) ?w0)"
    by (simp_all add: step_def split: if_splits)
  show ?thesis unfolding w' using assms(3) by (rule error_fields) simp_all
qed

lemma error_initial: "error_inv initial"
  by (rule error_invI) (simp_all add: initial_def raised_def)

lemma error_exec:
  assumes "own_errors E"
  shows "error_inv (exec E evs initial)"
proof (induction evs rule: rev_induct)
  case Nil
  show ?case by (simp add: exec_def error_initial)
next
  case (snoc ev evs)
  have eq: "exec E (evs @ [ev]) initial = step_or_skip E (exec E evs initial) ev"
    by (simp add: exec_def)
  show ?case
  proof (cases "step E ev (exec E evs initial)")
    case None
    then show ?thesis using snoc by (simp add: eq step_or_skip_def)
  next
    case (Some w')
    have "error_inv w'"
      using assms engine_exec snoc Some by (rule error_step)
    with Some show ?thesis by (simp add: eq step_or_skip_def)
  qed
qed

subsection \<open>A task that finds no engine\<close>

lemma resume_twice:
  assumes "compiler w = None"
  shows "resume E (length (running w))
           (resume E (length (running w))
              ((init_begin default_css w)\<lparr>running := running w @ [(dst, cs, Awaiting_init)]\<rparr>))
         = finish_task dst cs (processClasses E cs w)"
proof (cases "compile_css E default_css")
  case (Inl err)
  then show ?thesis
    using assms
    by (simp add: resume_def processClasses_def initializeCompiler_def css_source_def
        init_finish_def init_finally_def init_loaded_def init_begin_def remove_nth_def)
next
  case (Inr engine)
  then show ?thesis
    using assms
    by (simp add: resume_def processClasses_def initializeCompiler_def css_source_def
        init_finish_def init_finally_def init_loaded_def init_begin_def remove_nth_def)
qed

lemma fire_suspends:
  assumes "compiler w = None" and "src < length (promises w)" and "promises w ! src = Fulfilled"
  shows "fire E (OnThen src cs dst) w
         = Some ((init_begin default_css (w\<lparr>history := history w @ [Enter cs (processedClasses w)]\<rparr>))
                   \<lparr>running := running w @ [(dst, cs, Awaiting_init)]\<rparr>)"
  using assms by (simp add: fire_def Let_def)

lemma resume_goes_on:
  assumes "running w ! j = (dst, cs, Init_settled None)"
  shows "resume E j w
         = finish_task dst cs (process_new E cs (w\<lparr>running := remove_nth j (running w)\<rparr>))"
  using assms by (simp add: resume_def)

lemma resume_builds_on_installed:
  assumes "running w ! j = (dst, cs, Init_settled None)"
    and "Build c names \<in> set (history (resume E j w))" and "Build c names \<notin> set (history w)"
  shows "compiler w = Some c"
  using assms(2,3) unfolding resume_goes_on [OF assms(1)]
  by (auto simp: process_new_history split: if_splits option.splits)



lemma fire_known:
  assumes "set cs \<subseteq> set (processedClasses w)" and "compiler w \<noteq> None"
    and "src < length (promises w)" and "promises w ! src = Fulfilled"
  shows "fire E (OnThen src cs dst) w =
           Some (w\<lparr>history := history w @ [Enter cs (processedClasses w),
                                            Leave cs (processedClasses w) None],
                   promises := (promises w)[dst := Fulfilled]\<rparr>)"
proof -
  let ?w1 = "w\<lparr>history := history w @ [Enter cs (processedClasses w)]\<rparr>"
  have "process_new E cs ?w1 = (Inr (), ?w1)"
    using assms(1) by (intro process_new_skip) simp
  then show ?thesis
    using assms(2-4) by (auto simp: fire_def Let_def finish_task_def)
qed

section \<open>The claims about a build task\<close>

text \<open>
  C1. A task whose class names are all in the registry already calls no build, leaves
  the registry as it is and never writes the style sheet's text: a style sheet that
  exists keeps its text, and one that does not exist is at most created, empty, by the
  automatic initialisation. When an engine is installed the task changes nothing at all.
  In particular, when the task queued by a call of \<^verbatim>\<open>tw\<close> has completed, the task queued
  by a second call with the same inputs returns without any effect. In the event loop,
  the callback of such a task, with an engine installed, only enters, leaves and fulfils
  its promise.
\<close>

theorem known_classes_skip_build:
  "(set classNames \<subseteq> set (processedClasses w) \<longrightarrow>
      filter is_build (history (snd (processClasses E classNames w))) = filter is_build (history w)
      \<and> processedClasses (snd (processClasses E classNames w)) = processedClasses w
      \<and> (case sheet w of
            Some text \<Rightarrow> sheet (snd (processClasses E classNames w)) = Some text
          | None \<Rightarrow> sheet (snd (processClasses E classNames w)) = None
                    \<or> sheet (snd (processClasses E classNames w)) = Some [])
      \<and> (compiler w \<noteq> None \<longrightarrow> processClasses E classNames w = (Inr (), w)))
   \<and> (fst (processClasses E (snd (tw_inputs inputs ([], []))) w) = Inr () \<longrightarrow>
        processClasses E (snd (tw_inputs inputs ([], [])))
            (snd (processClasses E (snd (tw_inputs inputs ([], []))) w))
          = (Inr (), snd (processClasses E (snd (tw_inputs inputs ([], []))) w)))
   \<and> (set classNames \<subseteq> set (processedClasses w) \<and> compiler w \<noteq> None
       \<and> src < length (promises w) \<and> promises w ! src = Fulfilled \<longrightarrow>
        fire E (OnThen src classNames dst) w =
          Some (w\<lparr>history := history w @ [Enter classNames (processedClasses w),
                                           Leave classNames (processedClasses w) None],
                  promises := (promises w)[dst := Fulfilled]\<rparr>))"
proof (intro conjI impI)
  assume "set classNames \<subseteq> set (processedClasses w) \<and> compiler w \<noteq> None
       \<and> src < length (promises w) \<and> promises w ! src = Fulfilled"
  then show "fire E (OnThen src classNames dst) w =
          Some (w\<lparr>history := history w @ [Enter classNames (processedClasses w),
                                           Leave classNames (processedClasses w) None],
                  promises := (promises w)[dst := Fulfilled]\<rparr>)"
    by (intro fire_known) simp_all
next
  assume known: "set classNames \<subseteq> set (processedClasses w)"
  show "filter is_build (history (snd (processClasses E classNames w))) = filter is_build (history w)"
    using known by (rule processClasses_builds_known)
  show "processedClasses (snd (processClasses E classNames w)) = processedClasses w"
    using known by (rule processClasses_registry_known)
  show "case sheet w of
            Some text \<Rightarrow> sheet (snd (processClasses E classNames w)) = Some text
          | None \<Rightarrow> sheet (snd (processClasses E classNames w)) = None
                    \<or> sheet (snd (processClasses E classNames w)) = Some []"
    by (simp add: processClasses_sheet_known [OF known] split: option.splits)
  show "processClasses E classNames w = (Inr (), w)" if "compiler w \<noteq> None"
    using that known by (simp add: processClasses_installed process_new_skip)
next
  assume "fst (processClasses E (snd (tw_inputs inputs ([], []))) w) = Inr ()"
  then have "compiler (snd (processClasses E (snd (tw_inputs inputs ([], []))) w)) \<noteq> None"
    by (rule processClasses_ok_installed)
  then show "processClasses E (snd (tw_inputs inputs ([], [])))
            (snd (processClasses E (snd (tw_inputs inputs ([], []))) w))
          = (Inr (), snd (processClasses E (snd (tw_inputs inputs ([], []))) w))"
    by (rule processClasses_repeat)
qed


theorem known_classes_skip_build_witness:
  "set [js ''a''] \<subseteq> set (processedClasses demo_world)
   \<and> compiler demo_world \<noteq> None
   \<and> fst (processClasses demo_env (snd (tw_inputs [Str (js ''a'')] ([], []))) demo_world) = Inr ()
   \<and> processClasses demo_env [js ''a''] demo_world = (Inr (), demo_world)
   \<and> processClasses demo_env (snd (tw_inputs [Str (js ''a'')] ([], [])))
         (snd (processClasses demo_env (snd (tw_inputs [Str (js ''a'')] ([], []))) demo_world))
       = (Inr (), snd (processClasses demo_env (snd (tw_inputs [Str (js ''a'')] ([], []))) demo_world))
   \<and> 0 < length (promises demo_world) \<and> promises demo_world ! 0 = Fulfilled
   \<and> fire demo_env (OnThen 0 [js ''a''] 1) demo_world =
         Some (demo_world\<lparr>history := history demo_world @
                             [Enter [js ''a''] (processedClasses demo_world),
                              Leave [js ''a''] (processedClasses demo_world) None],
                           promises := (promises demo_world)[1 := Fulfilled]\<rparr>)"
proof -
  have h4: "0 < length (promises demo_world)" and h5: "promises demo_world ! 0 = Fulfilled"
    by (simp_all add: demo_world_def initial_def)
  have h1: "set [js ''a''] \<subseteq> set (processedClasses demo_world)"
    by (simp add: demo_world_def)
  have h2: "compiler demo_world \<noteq> None"
    by (simp add: demo_world_def)
  have p: "snd (tw_inputs [Str (js ''a'')] ([], [])) = [js ''a'']"
    by (simp add: parseClassString_def trim_def js_def is_space_def Let_def)
  have h3: "fst (processClasses demo_env (snd (tw_inputs [Str (js ''a'')] ([], []))) demo_world) = Inr ()"
    unfolding p by (simp add: processClasses_def process_new_def demo_world_def)
  show ?thesis
    using known_classes_skip_build [of "[js ''a'']" demo_world demo_env "[Str (js ''a'')]" 0 1]
      h1 h2 h3 h4 h5
    by blast
qed



text \<open>
  C8. A task that finds no engine installed does not go on to \<^verbatim>\<open>build\<close>: it first calls
  \<^verbatim>\<open>initializeCompiler()\<close>, which compiles the source \<^verbatim>\<open>@import "tailwindcss";\<close>, whose
  one import the resolver knows, and it is suspended until that call has returned or
  thrown. Resumed twice with nothing in between, the task is \<open>processClasses\<close>: when
  the compile yields an engine, it goes on exactly as if that engine had been installed
  before it started, every build it calls is on that engine, and it returns normally
  unless \<^verbatim>\<open>build\<close> itself throws; when the compile throws, the task throws the same
  error and calls no build. Whatever runs while the task is suspended, a task that goes
  on after its \<^verbatim>\<open>initializeCompiler()\<close> has returned calls \<^verbatim>\<open>build\<close> on the engine that is
  installed at that moment. In every run of the program such a task finds an engine and
  a style sheet, every build is on an engine that a compile of that run returned, and
  no task throws the language's error for a property of \<^verbatim>\<open>undefined\<close>, as long as the
  external compiler throws none itself: no task calls build on a missing engine.
\<close>

theorem first_task_auto_initializes:
  \<open>(compiler w = None \<longrightarrow>
      take (Suc (length (history w))) (history (snd (processClasses E cs w)))
        = history w @ [Compile (js ''@import "tailwindcss";'')]
      \<and> (src < length (promises w) \<and> promises w ! src = Fulfilled \<longrightarrow>
            fire E (OnThen src cs dst) w
              = Some ((init_begin (js ''@import "tailwindcss";'')
                         (w\<lparr>history := history w @ [Enter cs (processedClasses w)]\<rparr>))
                        \<lparr>running := running w @ [(dst, cs, Awaiting_init)]\<rparr>))
      \<and> resume E (length (running w))
           (resume E (length (running w))
              ((init_begin (js ''@import "tailwindcss";'') w)
                 \<lparr>running := running w @ [(dst, cs, Awaiting_init)]\<rparr>))
          = finish_task dst cs (processClasses E cs w)
      \<and> (\<forall>engine. compile_css E (js ''@import "tailwindcss";'') = Inr engine \<longrightarrow>
            processClasses E cs w = process_new E cs (installed E engine w)
            \<and> (\<forall>c names. Build c names \<in> set (history (snd (processClasses E cs w)))
                           \<and> Build c names \<notin> set (history w) \<longrightarrow> c = engine)
            \<and> (fst (processClasses E cs w) = Inr ()
                \<or> (\<exists>names err. build E engine names = Inl err
                                \<and> fst (processClasses E cs w) = Inl err)))
      \<and> (\<forall>err. compile_css E (js ''@import "tailwindcss";'') = Inl err \<longrightarrow>
            fst (processClasses E cs w) = Inl err
            \<and> filter is_build (history (snd (processClasses E cs w))) = filter is_build (history w)))
   \<and> (running w ! j = (dst, cs, Init_settled None) \<longrightarrow>
        resume E j w
          = finish_task dst cs (process_new E cs (w\<lparr>running := remove_nth j (running w)\<rparr>))
        \<and> (\<forall>c names. Build c names \<in> set (history (resume E j w))
                       \<and> Build c names \<notin> set (history w) \<longrightarrow> compiler w = Some c))
   \<and> (\<forall>d cs'. (d, cs', Init_settled None) \<in> set (running (exec E evs initial)) \<longrightarrow>
         compiler (exec E evs initial) \<noteq> None \<and> sheet (exec E evs initial) \<noteq> None)
   \<and> (\<forall>c names. Build c names \<in> set (history (exec E evs initial)) \<longrightarrow>
         recorded E (history (exec E evs initial)) c)
   \<and> (own_errors E \<longrightarrow> TypeError_undefined p \<notin> set (raised (history (exec E evs initial))))
   \<and> snd (loadStylesheet (assets E) (js ''tailwindcss'') b)
       = Inr \<lparr>path = js ''virtual:tailwindcss/index.css'', base = b, content = css_index (assets E)\<rparr>\<close>
  unfolding default_css_def [symmetric]
proof (intro conjI allI impI)
  assume none: "compiler w = None"
  show "take (Suc (length (history w))) (history (snd (processClasses E cs w)))
           = history w @ [Compile default_css]"
    using none by (cases E cs w rule: processClasses_cases) (simp_all add: process_new_history)
  show "resume E (length (running w))
           (resume E (length (running w))
              ((init_begin default_css w)\<lparr>running := running w @ [(dst, cs, Awaiting_init)]\<rparr>))
          = finish_task dst cs (processClasses E cs w)"
    using none by (rule resume_twice)
  {
    assume "src < length (promises w) \<and> promises w ! src = Fulfilled"
    then show "fire E (OnThen src cs dst) w
              = Some ((init_begin default_css
                         (w\<lparr>history := history w @ [Enter cs (processedClasses w)]\<rparr>))
                        \<lparr>running := running w @ [(dst, cs, Awaiting_init)]\<rparr>)"
      using none by (simp add: fire_suspends)
  }
  {
    fix engine assume ok: "compile_css E default_css = Inr engine"
    show eq: "processClasses E cs w = process_new E cs (installed E engine w)"
      using none ok by (rule processClasses_init_ok)
    show "fst (processClasses E cs w) = Inr ()
          \<or> (\<exists>names err. build E engine names = Inl err \<and> fst (processClasses E cs w) = Inl err)"
      unfolding eq by (rule process_new_outcome) (simp_all split: option.splits)
    fix c names
    assume "Build c names \<in> set (history (snd (processClasses E cs w))) \<and> Build c names \<notin> set (history w)"
    then show "c = engine"
      unfolding eq by (auto simp: process_new_history split: if_splits)
  }
  {
    fix err assume bad: "compile_css E default_css = Inl err"
    show "fst (processClasses E cs w) = Inl err"
      and "filter is_build (history (snd (processClasses E cs w))) = filter is_build (history w)"
      using none bad by (simp_all add: processClasses_init_fails)
  }
next
  assume t: "running w ! j = (dst, cs, Init_settled None)"
  then show "resume E j w
          = finish_task dst cs (process_new E cs (w\<lparr>running := remove_nth j (running w)\<rparr>))"
    by (rule resume_goes_on)
  fix c names
  assume "Build c names \<in> set (history (resume E j w)) \<and> Build c names \<notin> set (history w)"
  with t show "compiler w = Some c"
    using resume_builds_on_installed [of w j dst cs c names E] by blast
next
  fix d cs'
  assume m: "(d, cs', Init_settled None) \<in> set (running (exec E evs initial))"
  have e: "engine_inv E (exec E evs initial)" by (rule engine_exec)
  from m show c: "compiler (exec E evs initial) \<noteq> None" by (rule engine_invD(6) [OF e])
  then show "sheet (exec E evs initial) \<noteq> None" by (rule engine_invD(1) [OF e])
next
  fix c names
  assume "Build c names \<in> set (history (exec E evs initial))"
  then show "recorded E (history (exec E evs initial)) c"
    by (rule engine_invD(3) [OF engine_exec])
next
  assume "own_errors E"
  then have "error_inv (exec E evs initial)" by (rule error_exec)
  then show "TypeError_undefined p \<notin> set (raised (history (exec E evs initial)))"
    by (rule error_invD(1))
next
  show "snd (loadStylesheet (assets E) (js ''tailwindcss'') b)
       = Inr \<lparr>path = js ''virtual:tailwindcss/index.css'', base = b, content = css_index (assets E)\<rparr>"
    by (simp add: loadStylesheet_result load_def)
qed

theorem first_task_auto_initializes_witness:
  "compiler (initial :: jsstring world) = None
   \<and> compile_css demo_env default_css = Inr default_css
   \<and> own_errors demo_env
   \<and> fst (processClasses demo_env [js ''a''] initial) = Inr ()
   \<and> take (Suc (length (history (initial :: jsstring world))))
         (history (snd (processClasses demo_env [js ''a''] initial)))
       = history (initial :: jsstring world) @ [Compile default_css]
   \<and> processClasses demo_env [js ''a''] initial
       = process_new demo_env [js ''a''] (installed demo_env default_css initial)
   \<and> TypeError_undefined (js ''build'') \<notin> set (raised (history (exec demo_env failing_run initial)))
   \<and> compile_css broken_env default_css = Inl (Error (js ''cannot compile''))
   \<and> fst (processClasses broken_env [js ''a''] initial) = Inl (Error (js ''cannot compile''))
   \<and> running (exec demo_env (butlast overtaken_run) initial) = [(1, [js ''a''], Init_settled None)]
   \<and> compiler (exec demo_env (butlast overtaken_run) initial) = Some (js ''custom'')
   \<and> sheet (exec demo_env (butlast overtaken_run) initial) \<noteq> None
   \<and> filter is_build (history (exec demo_env overtaken_run initial))
       = [Build (js ''custom'') [js ''a'']]
   \<and> recorded demo_env (history (exec demo_env overtaken_run initial)) (js ''custom'')
   \<and> resume demo_env 0 (exec demo_env (butlast overtaken_run) initial)
       = finish_task 1 [js ''a'']
           (process_new demo_env [js ''a'']
              ((exec demo_env (butlast overtaken_run) initial)
                 \<lparr>running := remove_nth 0 (running (exec demo_env (butlast overtaken_run) initial))\<rparr>))
   \<and> map_option running (fire demo_env (OnThen 0 [js ''a''] 1) (initial :: jsstring world))
       = Some [(1, [js ''a''], Awaiting_init)]"
proof -
  let ?W = "exec demo_env (butlast overtaken_run) initial"
  have g1: "compile_css broken_env default_css = Inl (Error (js ''cannot compile''))"
    by (simp add: compile_css_def compile_run_def broken_env_def)
  note u = first_task_auto_initializes
    [where w = initial and E = broken_env and cs = "[js ''a'']"]
  from u g1 have g2: "fst (processClasses broken_env [js ''a''] initial) = Inl (Error (js ''cannot compile''))"
    by (simp add: initial_def default_css_def)
  have h1: "compiler (initial :: jsstring world) = None"
    by (simp add: initial_def)
  have h2: "compile_css demo_env default_css = Inr default_css"
    by (simp add: compile_css_def compile_run_def demo_env_def default_css_def js_def)
  have h3: "own_errors demo_env"
    by (simp add: own_errors_def compile_css_def compile_run_def demo_env_def)
  have ok: "fst (process_new demo_env [js ''a''] (installed demo_env default_css initial)) = Inr ()"
    by (simp add: process_new_def initial_def demo_env_def js_def Let_def set_add_def)
  note t = first_task_auto_initializes
    [where w = initial and E = demo_env and cs = "[js ''a'']" and p = "js ''build''"
       and evs = failing_run]
  from t h1 h2 have eq: "processClasses demo_env [js ''a''] initial
       = process_new demo_env [js ''a''] (installed demo_env default_css initial)"
    unfolding default_css_def by blast
  from t h1 have tk: "take (Suc (length (history (initial :: jsstring world))))
         (history (snd (processClasses demo_env [js ''a''] initial)))
       = history (initial :: jsstring world) @ [Compile default_css]"
    unfolding default_css_def by blast
  from t h3 have ne: "TypeError_undefined (js ''build'')
       \<notin> set (raised (history (exec demo_env failing_run initial)))"
    by blast
  have r: "fst (processClasses demo_env [js ''a''] initial) = Inr ()"
    unfolding eq by (rule ok)
  have k1: "running ?W = [(1, [js ''a''], Init_settled None)]"
    by code_simp
  have k2: "compiler ?W = Some (js ''custom'')"
    by code_simp
  have k3: "filter is_build (history (exec demo_env overtaken_run initial))
       = [Build (js ''custom'') [js ''a'']]"
    by code_simp
  note v = first_task_auto_initializes
    [where E = demo_env and evs = "butlast overtaken_run"]
  have "(1, [js ''a''], Init_settled None) \<in> set (running ?W)"
    by (simp add: k1)
  with v have k4: "sheet ?W \<noteq> None"
    by blast
  note x = first_task_auto_initializes
    [where E = demo_env and evs = overtaken_run]
  have "Build (js ''custom'') [js ''a''] \<in> set (filter is_build (history (exec demo_env overtaken_run initial)))"
    by (simp add: k3)
  then have "Build (js ''custom'') [js ''a''] \<in> set (history (exec demo_env overtaken_run initial))"
    by simp
  with x have k5: "recorded demo_env (history (exec demo_env overtaken_run initial)) (js ''custom'')"
    by blast
  note y = first_task_auto_initializes
    [where w = ?W and E = demo_env and j = 0 and dst = 1 and cs = "[js ''a'']"]
  have "running ?W ! 0 = (1, [js ''a''], Init_settled None)"
    by (simp add: k1)
  with y have k6: "resume demo_env 0 ?W
       = finish_task 1 [js ''a'']
           (process_new demo_env [js ''a''] (?W\<lparr>running := remove_nth 0 (running ?W)\<rparr>))"
    by blast
  note z = first_task_auto_initializes
    [where w = initial and E = demo_env and src = 0 and dst = 1 and cs = "[js ''a'']"]
  have "0 < length (promises (initial :: jsstring world))
        \<and> promises (initial :: jsstring world) ! 0 = Fulfilled"
    by (simp add: initial_def)
  with z h1 have "fire demo_env (OnThen 0 [js ''a''] 1) (initial :: jsstring world)
       = Some ((init_begin default_css
                  (initial\<lparr>history := history (initial :: jsstring world)
                                        @ [Enter [js ''a''] (processedClasses (initial :: jsstring world))]\<rparr>))
                 \<lparr>running := running (initial :: jsstring world) @ [(1, [js ''a''], Awaiting_init)]\<rparr>)"
    unfolding default_css_def by blast
  then have k7: "map_option running (fire demo_env (OnThen 0 [js ''a''] 1) (initial :: jsstring world))
       = Some [(1, [js ''a''], Awaiting_init)]"
    by (simp add: initial_def)
  show ?thesis
    by (intro conjI h1 h2 h3 r tk eq ne g1 g2 k1 k2 k3 k4 k5 k6 k7)
qed

text \<open>
  C10. A task inserts its new names before it calls \<^verbatim>\<open>build\<close>, and nothing takes them
  out again: whenever a task ends with an engine installed, whether it returned or
  threw, all its names are in the registry, and a later task whose names are among them
  returns without any effect. In particular, when \<^verbatim>\<open>build\<close> throws, the task throws
  that error after the one build call, on a registry that holds its names, and the
  style sheet is as before.
\<close>

theorem failed_build_keeps_names:
  "(compiler (snd (processClasses E cs w)) \<noteq> None \<longrightarrow>
      set cs \<subseteq> set (processedClasses (snd (processClasses E cs w)))
      \<and> (\<forall>later. set later \<subseteq> set cs \<longrightarrow>
            processClasses E later (snd (processClasses E cs w))
              = (Inr (), snd (processClasses E cs w))))
   \<and> (compiler w = Some engine \<and> \<not> set cs \<subseteq> set (processedClasses w)
       \<and> build E engine (add_all (filter (\<lambda>cls. cls \<notin> set (processedClasses w)) cs)
                             (processedClasses w)) = Inl err \<longrightarrow>
        fst (processClasses E cs w) = Inl err
        \<and> history (snd (processClasses E cs w))
            = history w @ [Build engine (processedClasses (snd (processClasses E cs w)))]
        \<and> set cs \<subseteq> set (processedClasses (snd (processClasses E cs w)))
        \<and> compiler (snd (processClasses E cs w)) = Some engine
        \<and> sheet (snd (processClasses E cs w)) = sheet w)"
proof (intro conjI impI allI)
  assume inst: "compiler (snd (processClasses E cs w)) \<noteq> None"
  then show ins: "set cs \<subseteq> set (processedClasses (snd (processClasses E cs w)))"
    by (rule processClasses_inserts)
  fix later :: "jsstring list"
  assume "set later \<subseteq> set cs"
  with ins have "set later \<subseteq> set (processedClasses (snd (processClasses E cs w)))"
    by simp
  then show "processClasses E later (snd (processClasses E cs w)) = (Inr (), snd (processClasses E cs w))"
    using inst by (simp add: processClasses_installed process_new_skip)
next
  assume a: "compiler w = Some engine \<and> \<not> set cs \<subseteq> set (processedClasses w)
       \<and> build E engine (add_all (filter (\<lambda>cls. cls \<notin> set (processedClasses w)) cs)
                             (processedClasses w)) = Inl err"
  then have eq: "processClasses E cs w = process_new E cs w"
    by (simp add: processClasses_installed)
  show "fst (processClasses E cs w) = Inl err"
    and "sheet (snd (processClasses E cs w)) = sheet w"
    unfolding eq using a by (simp_all add: process_new_build_fails)
  show "history (snd (processClasses E cs w))
            = history w @ [Build engine (processedClasses (snd (processClasses E cs w)))]"
    unfolding eq using a by (simp add: process_new_history process_new_registry)
  show c: "compiler (snd (processClasses E cs w)) = Some engine"
    unfolding eq using a by (simp add: process_new_compiler)
  then show "set cs \<subseteq> set (processedClasses (snd (processClasses E cs w)))"
    by (intro processClasses_inserts) simp
qed

theorem failed_build_keeps_names_witness:
  "compiler demo_world = Some (js ''engine'')
   \<and> \<not> set [js ''boom''] \<subseteq> set (processedClasses demo_world)
   \<and> build demo_env (js ''engine'')
         (add_all (filter (\<lambda>cls. cls \<notin> set (processedClasses demo_world)) [js ''boom''])
            (processedClasses demo_world)) = Inl (Error (js ''cannot build''))
   \<and> fst (processClasses demo_env [js ''boom''] demo_world) = Inl (Error (js ''cannot build''))
   \<and> set [js ''boom''] \<subseteq> set (processedClasses (snd (processClasses demo_env [js ''boom''] demo_world)))
   \<and> processClasses demo_env [js ''boom''] (snd (processClasses demo_env [js ''boom''] demo_world))
       = (Inr (), snd (processClasses demo_env [js ''boom''] demo_world))"
proof -
  have h1: "compiler demo_world = Some (js ''engine'')"
    by (simp add: demo_world_def)
  have h2: "\<not> set [js ''boom''] \<subseteq> set (processedClasses demo_world)"
    by (simp add: demo_world_def js_def)
  have h3: "build demo_env (js ''engine'')
         (add_all (filter (\<lambda>cls. cls \<notin> set (processedClasses demo_world)) [js ''boom''])
            (processedClasses demo_world)) = Inl (Error (js ''cannot build''))"
    by (simp add: demo_world_def demo_env_def set_add_def js_def)
  have c: "compiler (snd (processClasses demo_env [js ''boom''] demo_world)) \<noteq> None"
    using failed_build_keeps_names [of demo_env "[js ''boom'']" demo_world "js ''engine''"
        "Error (js ''cannot build'')"] h1 h2 h3 by simp
  show ?thesis
    using failed_build_keeps_names [of demo_env "[js ''boom'']" demo_world "js ''engine''"
        "Error (js ''cannot build'')"] h1 h2 h3 c by blast
qed

text \<open>
  C4. The registry only grows. Along every run of the program (calls of \<^verbatim>\<open>tw\<close> and
  of \<^verbatim>\<open>initializeCompiler\<close>, and the queued tasks they lead to, in any order the
  runtime allows), the registry after any first part of the run is an initial segment
  of the registry after the whole run, so it is a subset of it. A task extends the
  registry at its end, \<^verbatim>\<open>initializeCompiler\<close> and \<^verbatim>\<open>tw\<close> leave it alone, and adding a
  name that is there changes nothing.
\<close>

theorem registry_only_grows:
  "prefix (processedClasses (exec E (take k evs) w)) (processedClasses (exec E evs w))
   \<and> set (processedClasses (exec E (take k evs) w)) \<subseteq> set (processedClasses (exec E evs w))
   \<and> prefix (processedClasses w) (processedClasses (snd (processClasses E cs w)))
   \<and> processedClasses (snd (initializeCompiler E customCss w)) = processedClasses w
   \<and> processedClasses (snd (tw inputs w)) = processedClasses w
   \<and> prefix registry (set_add cls registry)
   \<and> set_add cls (set_add cls registry) = set_add cls registry"
proof (intro conjI)
  have "exec E evs w = exec E (drop k evs) (exec E (take k evs) w)"
    using exec_append [of E "take k evs" "drop k evs" w] by simp
  then show p: "prefix (processedClasses (exec E (take k evs) w)) (processedClasses (exec E evs w))"
    using exec_registry [of "exec E (take k evs) w" E "drop k evs"] by simp
  then show "set (processedClasses (exec E (take k evs) w)) \<subseteq> set (processedClasses (exec E evs w))"
    by (rule set_mono_prefix)
  show "prefix (processedClasses w) (processedClasses (snd (processClasses E cs w)))"
    by (rule processClasses_registry)
  show "processedClasses (snd (initializeCompiler E customCss w)) = processedClasses w"
    by (simp add: initializeCompiler_def Let_def)
  show "processedClasses (snd (tw inputs w)) = processedClasses w"
    by (simp add: tw_world)
  show "prefix registry (set_add cls registry)"
    by (rule prefix_set_add)
  show "set_add cls (set_add cls registry) = set_add cls registry"
    by (simp add: set_add_def)
qed

theorem registry_only_grows_witness:
  "set (processedClasses (exec demo_env
          (take 3 [Call_tw [Str (js ''a b'')], Fire 0, Resume 0, Call_tw [Str (js ''b c'')],
                   Fire 0, Fire 0]) initial))
     \<subseteq> set (processedClasses (exec demo_env
          [Call_tw [Str (js ''a b'')], Fire 0, Resume 0, Call_tw [Str (js ''b c'')],
           Fire 0, Fire 0] initial))"
  using registry_only_grows [of demo_env 3
      "[Call_tw [Str (js ''a b'')], Fire 0, Resume 0, Call_tw [Str (js ''b c'')], Fire 0, Fire 0]"
      initial]
  by blast

section \<open>The claim about a failed initialisation\<close>

text \<open>
  C9. When the compile of the CSS source throws, \<^verbatim>\<open>initializeCompiler\<close> throws the same
  error and \<^verbatim>\<open>compiler\<close> holds what it held before the call (an engine installed earlier
  stays installed); the style sheet and the registry are not touched either.
\<close>

theorem failed_initialize_keeps_engine:
  assumes "compile_css E (css_source customCss) = Inl err"
  shows "fst (initializeCompiler E customCss w) = Inl err
         \<and> compiler (snd (initializeCompiler E customCss w)) = compiler w
         \<and> sheet (snd (initializeCompiler E customCss w)) = sheet w
         \<and> processedClasses (snd (initializeCompiler E customCss w)) = processedClasses w"
  using assms by (simp add: init_fail)

theorem failed_initialize_keeps_engine_witness:
  "compile_css demo_env (css_source (Some (js ''broken''))) = Inl (Error (js ''cannot compile''))
   \<and> compiler (snd (initializeCompiler demo_env (Some (js ''broken''))
                     (initial\<lparr>compiler := Some (js ''old''), sheet := Some (js ''.a{}'')\<rparr>)))
       = Some (js ''old'')"
proof -
  have h: "compile_css demo_env (css_source (Some (js ''broken''))) = Inl (Error (js ''cannot compile''))"
    by (simp add: compile_css_def compile_run_def demo_env_def css_source_def)
  show ?thesis
    using h failed_initialize_keeps_engine [OF h,
        of "initial\<lparr>compiler := Some (js ''old''), sheet := Some (js ''.a{}'')\<rparr>"]
    by simp
qed


section \<open>The claims about the queue\<close>

text \<open>
  C5. Tasks run one at a time and in the order they were queued. In every run of the
  program, whatever order the runtime takes the settled callbacks in: at most one call
  of \<^verbatim>\<open>processClasses\<close> is suspended; in the history a task enters only when no task is
  open, the task that leaves is the one that entered last, and every build lies between
  the entering and the leaving of a task (\<open>serial\<close>), so a task begins only after the
  registry insertions and the build of the task before it; the tasks entered so far,
  followed by the tasks still waiting, are the tasks queued in the order of the calls;
  and each registry content recorded, at an entering, a build or a leaving, and the
  registry now, extends every one recorded before it, so a task sees the insertions of
  all tasks before it.
\<close>

theorem tasks_run_one_by_one_in_order:
  "length (running (exec E evs initial)) \<le> 1
   \<and> serial (history (exec E evs initial))
   \<and> entered (history (exec E evs initial)) @ pending (reactions (exec E evs initial)) = enqueued evs
   \<and> prefix (left (history (exec E evs initial))) (entered (history (exec E evs initial)))
   \<and> length (entered (history (exec E evs initial))) \<le> Suc (length (left (history (exec E evs initial))))
   \<and> sorted_wrt prefix (snaps (history (exec E evs initial)) @ [processedClasses (exec E evs initial)])"
proof -
  obtain f where "run_inv evs f (exec E evs initial)"
    using inv_exec by blast
  from inv_facts(1-6) [OF this] show ?thesis by blast
qed

theorem tasks_run_one_by_one_in_order_witness:
  "serial (history (exec demo_env two_calls initial))
   \<and> entered (history (exec demo_env two_calls initial))
       = [[js ''a'', js ''b''], [js ''b'', js ''c'']]
   \<and> snaps (history (exec demo_env two_calls initial))
       = [[], [js ''a'', js ''b''], [js ''a'', js ''b''], [js ''a'', js ''b''],
          [js ''a'', js ''b'', js ''c''], [js ''a'', js ''b'', js ''c'']]"
  using tasks_run_one_by_one_in_order [of demo_env two_calls]
  by (simp add: two_calls_run entered_def snaps_def)

text \<open>
  C6. An error thrown inside a task stays inside the queue. In every state a run can
  reach: \<^verbatim>\<open>tw\<close> can be called and returns the joined active tokens, which do not depend
  on the state; the errors reported through \<^verbatim>\<open>I.error\<close> are, in order, the errors the
  tasks threw, but for at most one that is not yet reported; and \<^verbatim>\<open>buildQueue\<close> is
  never a rejected promise. When after the call the runtime is left to run the waiting
  callbacks, for at least \<open>jobs_bound\<close> steps, nothing is left waiting, every task queued
  has entered and left, the task of this call last, every error thrown has been
  reported, and \<^verbatim>\<open>buildQueue\<close> is fulfilled.
\<close>

theorem failed_task_reported_and_queue_usable:
  "fst (tw inputs (exec E evs initial)) = join_space (concat (map spec_active inputs))
   \<and> step E (Call_tw inputs) (exec E evs initial) = Some (snd (tw inputs (exec E evs initial)))
   \<and> prefix (reported (instr (exec E evs initial))) (raised (history (exec E evs initial)))
   \<and> length (raised (history (exec E evs initial))) \<le> Suc (length (reported (instr (exec E evs initial))))
   \<and> (promises (exec E evs initial) ! buildQueue (exec E evs initial) = Pending
        \<or> promises (exec E evs initial) ! buildQueue (exec E evs initial) = Fulfilled)
   \<and> (\<forall>k. jobs_bound (snd (tw inputs (exec E evs initial))) \<le> k \<longrightarrow>
         left (history (run_jobs k E (snd (tw inputs (exec E evs initial)))))
           = enqueued evs @ [concat (map spec_candidates inputs)]
         \<and> reported (instr (run_jobs k E (snd (tw inputs (exec E evs initial)))))
           = raised (history (run_jobs k E (snd (tw inputs (exec E evs initial)))))
         \<and> next_event (run_jobs k E (snd (tw inputs (exec E evs initial)))) = None
         \<and> promises (run_jobs k E (snd (tw inputs (exec E evs initial))))
             ! buildQueue (run_jobs k E (snd (tw inputs (exec E evs initial)))) = Fulfilled)"
proof -
  let ?w = "exec E evs initial"
  let ?w1 = "snd (tw inputs ?w)"
  obtain f where i: "run_inv evs f ?w"
    using inv_exec by blast
  have i1: "run_inv (evs @ [Call_tw inputs]) f ?w1"
    using i by (rule inv_tw)
  have q: "enqueued (evs @ [Call_tw inputs]) = enqueued evs @ [concat (map spec_candidates inputs)]"
    by (simp add: enqueued_def tw_inputs_eq)
  have later: "left (history (run_jobs k E ?w1)) = enqueued evs @ [concat (map spec_candidates inputs)]
         \<and> reported (instr (run_jobs k E ?w1)) = raised (history (run_jobs k E ?w1))
         \<and> next_event (run_jobs k E ?w1) = None
         \<and> promises (run_jobs k E ?w1) ! buildQueue (run_jobs k E ?w1) = Fulfilled"
    if k: "jobs_bound ?w1 \<le> k" for k
  proof -
    obtain f' where i2: "run_inv (evs @ [Call_tw inputs]) f' (run_jobs k E ?w1)"
      using inv_run_jobs [OF i1] by blast
    have n: "next_event (run_jobs k E ?w1) = None"
      using i1 k by (rule run_jobs_quiescent)
    from inv_quiescent [OF i2 n] n q show ?thesis by simp
  qed
  have "fst (tw inputs ?w) = join_space (concat (map spec_active inputs))"
    by (simp add: tw_def tw_inputs_eq)
  moreover have "step E (Call_tw inputs) ?w = Some ?w1"
    by (simp add: step_def)
  ultimately show ?thesis
    using inv_facts(7-9) [OF i] later by blast
qed

theorem failed_task_reported_and_queue_usable_witness:
  "jobs_bound (snd (tw [Str (js ''a'')] (exec demo_env failing_run initial))) \<le> 9
   \<and> raised (history (exec demo_env failing_run initial)) = [Error (js ''cannot build'')]
   \<and> reported (instr (exec demo_env failing_run initial)) = []
   \<and> left (history (run_jobs 9 demo_env (snd (tw [Str (js ''a'')] (exec demo_env failing_run initial)))))
       = [[js ''boom''], [js ''a'']]
   \<and> reported (instr (run_jobs 9 demo_env (snd (tw [Str (js ''a'')] (exec demo_env failing_run initial)))))
       = raised (history (run_jobs 9 demo_env (snd (tw [Str (js ''a'')] (exec demo_env failing_run initial)))))"
proof -
  have b: "jobs_bound (snd (tw [Str (js ''a'')] (exec demo_env failing_run initial))) \<le> 9"
    by code_simp
  have r: "raised (history (exec demo_env failing_run initial)) = [Error (js ''cannot build'')]"
    by code_simp
  have p: "reported (instr (exec demo_env failing_run initial)) = []"
    by code_simp
  have e: "enqueued failing_run @ [concat (map spec_candidates [Str (js ''a'')])]
            = [[js ''boom''], [js ''a'']]"
    by code_simp
  show ?thesis
    using failed_task_reported_and_queue_usable [of "[Str (js ''a'')]" demo_env failing_run] b r p e
    by metis
qed


end
